theory Spec2Isabelle
  imports Main "HOL-Library.Word" "HOL-Library.Log_Nat"
begin

unbundle bit_operations_syntax

section \<open>Go runtime conventions\<close>

text \<open>
  Go's \<open>int\<close> is modelled as the unbounded \<open>int\<close>: the extents, sizes and byte offsets of
  an array whose buffer has been allocated stay far below \<open>2 ^ 63\<close>, so no arithmetic of
  the modelled functions wraps around.  Slice lengths and loop counters that cannot be
  negative are \<open>nat\<close>.  Every \<open>panic\<close> of the source, and every run-time panic of Go that
  the modelled code can reach, is a value \<open>Inl e\<close> of the result type \<open>error + 'a\<close>.
  The source panics with formatted strings only; the constructors below carry the values
  that the message formats and are named after the error kinds of the specification.
\<close>

datatype error =
    ShapeError
  | IndexError int nat int
  | BroadcastError "int list" "int list"
  | AxisError
  | DimensionError
  | SingularMatrixError
  | UnsupportedDTypeError
  | RuntimePanic

text \<open>\<open>for _, i := range is { body }\<close>, leaving the loop at the first panic.\<close>

primrec for_loop :: "nat list \<Rightarrow> (nat \<Rightarrow> 's \<Rightarrow> error + 's) \<Rightarrow> 's \<Rightarrow> error + 's" where
  "for_loop [] body s = Inr s"
| "for_loop (i # is) body s =
     (case body i s of Inl e \<Rightarrow> Inl e | Inr s' \<Rightarrow> for_loop is body s')"

text \<open>\<open>make([]int, n)\<close> and the built-in \<open>copy(dst, src)\<close>, which copies
  \<open>min(len(dst), len(src))\<close> elements and leaves the rest of \<open>dst\<close> as it is.\<close>

definition make_ints :: "nat \<Rightarrow> int list" where
  "make_ints n = replicate n 0"

definition go_copy :: "'a list \<Rightarrow> 'a list \<Rightarrow> 'a list" where
  "go_copy dst src =
     take (min (length dst) (length src)) src @ drop (min (length dst) (length src)) dst"

section \<open>Go's float64 and float32, as bit patterns\<close>

text \<open>
  A \<open>float64\<close> is modelled by its IEEE 754 binary64 bit pattern, so \<open>math.Float64bits\<close>
  and \<open>math.Float64frombits\<close> are the identity and results can be compared bit for bit.
  Arithmetic decodes the operands to a sign and a magnitude \<open>m * 2 ^ e\<close>, computes exactly
  on integers and rounds to nearest, ties to even (a zero operand of an addition needs no
  rounding: the sum is the other operand).  Results that the Go specification
  leaves to the implementation follow amd64: a NaN operand is returned with its quiet bit
  set (the first operand first), and an invalid operation yields the default NaN
  \<open>0xFFF8000000000000\<close>.
\<close>

type_synonym float64 = "64 word"
type_synonym float32 = "32 word"

definition nbits :: "nat \<Rightarrow> nat" where
  "nbits m = floorlog 2 m"

definition round_half_even :: "nat \<Rightarrow> nat \<Rightarrow> nat" where
  "round_half_even m k =
     (let q = m div 2 ^ k; r = m mod 2 ^ k
      in if 2 * r > 2 ^ k \<or> (2 * r = 2 ^ k \<and> odd q) then q + 1 else q)"

text \<open>The pattern (without sign bit) of the magnitude \<open>m * 2 ^ e\<close> rounded to a format
  of precision \<open>p\<close> whose least subnormal is \<open>2 ^ emin\<close> and whose exponent field of
  infinities is \<open>maxfield\<close>.\<close>

definition ieee_round :: "nat \<Rightarrow> int \<Rightarrow> nat \<Rightarrow> nat \<Rightarrow> int \<Rightarrow> nat" where
  "ieee_round p emin maxfield m e =
     (if m = 0 then 0
      else let shift = max (int (nbits m) - int p) (emin - e);
               n = (if shift \<le> 0 then m * 2 ^ nat (- shift)
                    else round_half_even m (nat shift));
               pat = nat (e + shift - emin) * 2 ^ (p - 1) + n
           in if pat \<ge> maxfield * 2 ^ (p - 1) then maxfield * 2 ^ (p - 1) else pat)"

text \<open>The same for a quotient \<open>num / den\<close> with \<open>den > 0\<close>: enough quotient bits and
  a sticky bit.\<close>

definition ieee_round_ratio :: "nat \<Rightarrow> int \<Rightarrow> nat \<Rightarrow> nat \<Rightarrow> nat \<Rightarrow> nat" where
  "ieee_round_ratio p emin maxfield num den =
     (let k = nat (int p + 2 + int (nbits den) - int (nbits num));
          q = (num * 2 ^ k) div den;
          r = (num * 2 ^ k) mod den
      in ieee_round p emin maxfield (2 * q + (if r = 0 then 0 else 1)) (- int k - 1))"

definition f64_round :: "bool \<Rightarrow> nat \<Rightarrow> int \<Rightarrow> float64" where
  "f64_round neg m e =
     of_nat (ieee_round 53 (- 1074) 2047 m e + (if neg then 2 ^ 63 else 0))"

definition f64_round_ratio :: "bool \<Rightarrow> nat \<Rightarrow> nat \<Rightarrow> float64" where
  "f64_round_ratio neg num den =
     of_nat (ieee_round_ratio 53 (- 1074) 2047 num den + (if neg then 2 ^ 63 else 0))"

definition f64_neg :: "float64 \<Rightarrow> bool" where
  "f64_neg w = (unat w \<ge> 2 ^ 63)"

definition f64_field :: "float64 \<Rightarrow> nat" where
  "f64_field w = (unat w div 2 ^ 52) mod 2048"

definition f64_frac :: "float64 \<Rightarrow> nat" where
  "f64_frac w = unat w mod 2 ^ 52"

definition f64_isNaN :: "float64 \<Rightarrow> bool" where
  "f64_isNaN w = (f64_field w = 2047 \<and> f64_frac w \<noteq> 0)"

definition f64_isInf :: "float64 \<Rightarrow> bool" where
  "f64_isInf w = (f64_field w = 2047 \<and> f64_frac w = 0)"

definition f64_mant :: "float64 \<Rightarrow> nat" where
  "f64_mant w = (if f64_field w = 0 then f64_frac w else 2 ^ 52 + f64_frac w)"

definition f64_exp :: "float64 \<Rightarrow> int" where
  "f64_exp w = (if f64_field w = 0 then - 1074 else int (f64_field w) - 1075)"

definition f64_smant :: "float64 \<Rightarrow> int" where
  "f64_smant w = (if f64_neg w then - int (f64_mant w) else int (f64_mant w))"

definition f64_quiet :: "float64 \<Rightarrow> float64" where
  "f64_quiet w = w OR 0x0008000000000000"

definition f64_default_nan :: float64 where
  "f64_default_nan = 0xFFF8000000000000"

definition f64_inf :: "bool \<Rightarrow> float64" where
  "f64_inf neg = (if neg then 0xFFF0000000000000 else 0x7FF0000000000000)"

definition f64_zero :: "bool \<Rightarrow> float64" where
  "f64_zero neg = (if neg then 0x8000000000000000 else 0)"

definition f64_add :: "float64 \<Rightarrow> float64 \<Rightarrow> float64" where
  "f64_add a b =
     (if f64_isNaN a then f64_quiet a
      else if f64_isNaN b then f64_quiet b
      else if f64_isInf a then (if f64_isInf b \<and> f64_neg a \<noteq> f64_neg b then f64_default_nan else a)
      else if f64_isInf b then b
      else if f64_mant a = 0 \<and> f64_mant b = 0 then f64_zero (f64_neg a \<and> f64_neg b)
      else if f64_mant a = 0 then b
      else if f64_mant b = 0 then a
      else let e = min (f64_exp a) (f64_exp b);
               x = f64_smant a * 2 ^ nat (f64_exp a - e) + f64_smant b * 2 ^ nat (f64_exp b - e)
           in if x = 0 then f64_zero (f64_neg a \<and> f64_neg b)
              else f64_round (x < 0) (nat \<bar>x\<bar>) e)"

definition f64_negate :: "float64 \<Rightarrow> float64" where
  "f64_negate a = a XOR 0x8000000000000000"

definition f64_sub :: "float64 \<Rightarrow> float64 \<Rightarrow> float64" where
  "f64_sub a b =
     (if f64_isNaN a then f64_quiet a
      else if f64_isNaN b then f64_quiet b
      else f64_add a (f64_negate b))"

definition f64_mul :: "float64 \<Rightarrow> float64 \<Rightarrow> float64" where
  "f64_mul a b =
     (let neg = (f64_neg a \<noteq> f64_neg b) in
      if f64_isNaN a then f64_quiet a
      else if f64_isNaN b then f64_quiet b
      else if f64_isInf a then (if f64_mant b = 0 then f64_default_nan else f64_inf neg)
      else if f64_isInf b then (if f64_mant a = 0 then f64_default_nan else f64_inf neg)
      else f64_round neg (f64_mant a * f64_mant b) (f64_exp a + f64_exp b))"

definition f64_div :: "float64 \<Rightarrow> float64 \<Rightarrow> float64" where
  "f64_div a b =
     (let neg = (f64_neg a \<noteq> f64_neg b) in
      if f64_isNaN a then f64_quiet a
      else if f64_isNaN b then f64_quiet b
      else if f64_isInf a then (if f64_isInf b then f64_default_nan else f64_inf neg)
      else if f64_isInf b then f64_zero neg
      else if f64_mant b = 0 then (if f64_mant a = 0 then f64_default_nan else f64_inf neg)
      else let d = f64_exp a - f64_exp b
           in f64_round_ratio neg (f64_mant a * 2 ^ nat d) (f64_mant b * 2 ^ nat (- d)))"

text \<open>Comparison: no NaN compares, and the two zeros are equal.\<close>

definition f64_key :: "float64 \<Rightarrow> int" where
  "f64_key w = (if f64_neg w then - int (unat w mod 2 ^ 63) else int (unat w))"

definition f64_lt :: "float64 \<Rightarrow> float64 \<Rightarrow> bool" where
  "f64_lt a b = (\<not> f64_isNaN a \<and> \<not> f64_isNaN b \<and> f64_key a < f64_key b)"

definition f64_eq :: "float64 \<Rightarrow> float64 \<Rightarrow> bool" where
  "f64_eq a b = (\<not> f64_isNaN a \<and> \<not> f64_isNaN b \<and> f64_key a = f64_key b)"

text \<open>\<open>math.Abs\<close> clears the sign bit.\<close>

definition f64_abs :: "float64 \<Rightarrow> float64" where
  "f64_abs a = a AND 0x7FFFFFFFFFFFFFFF"

text \<open>Constants and conversions from integers round like every other operation.\<close>

definition f64_of_int :: "int \<Rightarrow> float64" where
  "f64_of_int i = f64_round (i < 0) (nat \<bar>i\<bar>) 0"

definition f64_of_ratio :: "nat \<Rightarrow> nat \<Rightarrow> float64" where
  "f64_of_ratio num den = f64_round_ratio False num den"

text \<open>
  Conversion of a float to an integer type truncates towards zero.  When the truncated
  value does not fit the target type (or the operand is a NaN or an infinity) Go leaves
  the result to the implementation: it is some value of the target type, which the model
  does not fix.
\<close>

definition f64_trunc :: "float64 \<Rightarrow> int" where
  "f64_trunc w =
     (let t = (if f64_exp w \<ge> 0 then int (f64_mant w) * 2 ^ nat (f64_exp w)
               else int (f64_mant w div 2 ^ nat (- f64_exp w)))
      in if f64_neg w then - t else t)"

definition f64_to_int :: "int \<Rightarrow> int \<Rightarrow> float64 \<Rightarrow> int" where
  "f64_to_int lo hi w =
     (if f64_field w \<noteq> 2047 \<and> lo \<le> f64_trunc w \<and> f64_trunc w \<le> hi then f64_trunc w
      else undefined)"

text \<open>float32: the same rounding at precision 24.\<close>

definition f32_field :: "float32 \<Rightarrow> nat" where
  "f32_field w = (unat w div 2 ^ 23) mod 256"

definition f32_frac :: "float32 \<Rightarrow> nat" where
  "f32_frac w = unat w mod 2 ^ 23"

definition f32_neg :: "float32 \<Rightarrow> bool" where
  "f32_neg w = (unat w \<ge> 2 ^ 31)"

definition f64_to_f32 :: "float64 \<Rightarrow> float32" where
  "f64_to_f32 w =
     of_nat ((if f64_neg w then 2 ^ 31 else 0) +
       (if f64_isNaN w then 255 * 2 ^ 23 + 2 ^ 22 + f64_frac w div 2 ^ 29
        else if f64_isInf w then 255 * 2 ^ 23
        else ieee_round 24 (- 149) 255 (f64_mant w) (f64_exp w)))"

definition f32_to_f64 :: "float32 \<Rightarrow> float64" where
  "f32_to_f64 w =
     (if f32_field w = 255
      then of_nat ((if f32_neg w then 2 ^ 63 else 0) + 2047 * 2 ^ 52 +
                   (if f32_frac w = 0 then 0 else 2 ^ 51 + (f32_frac w mod 2 ^ 22) * 2 ^ 29))
      else f64_round (f32_neg w)
             (if f32_field w = 0 then f32_frac w else 2 ^ 23 + f32_frac w)
             (if f32_field w = 0 then - 149 else int (f32_field w) - 150))"

section \<open>The strided buffer (tensor: DType, NDArray)\<close>

text \<open>\<open>type DType int\<close> with its thirteen constants; any other integer is a \<open>DType\<close> too,
  which the \<open>default\<close> branches of the source handle.\<close>

type_synonym DType = int
type_synonym byte = "8 word"

definition Bool :: DType where "Bool = 0"
definition Int8 :: DType where "Int8 = 1"
definition Int16 :: DType where "Int16 = 2"
definition Int32 :: DType where "Int32 = 3"
definition Int64 :: DType where "Int64 = 4"
definition Uint8 :: DType where "Uint8 = 5"
definition Uint16 :: DType where "Uint16 = 6"
definition Uint32 :: DType where "Uint32 = 7"
definition Uint64 :: DType where "Uint64 = 8"
definition Float32 :: DType where "Float32 = 9"
definition Float64 :: DType where "Float64 = 10"
definition Complex64 :: DType where "Complex64 = 11"
definition Complex128 :: DType where "Complex128 = 12"

definition ItemSize :: "DType \<Rightarrow> int" where
  "ItemSize dt =
     (if dt = Bool \<or> dt = Int8 \<or> dt = Uint8 then 1
      else if dt = Int16 \<or> dt = Uint16 then 2
      else if dt = Int32 \<or> dt = Uint32 \<or> dt = Float32 then 4
      else if dt = Int64 \<or> dt = Uint64 \<or> dt = Float64 \<or> dt = Complex64 then 8
      else if dt = Complex128 then 16
      else 0)"

record NDArray =
  data :: "byte list"
  shape :: "int list"
  strides :: "int list"
  dtype :: DType
  size' :: int
  ndim :: int

definition computeStrides :: "int list \<Rightarrow> int \<Rightarrow> int list" where
  "computeStrides shp itemsize =
     (if length shp = 0 then []
      else fst (fold (\<lambda>i (strs, stride). (strs[i := stride], stride * shp ! i))
                  (rev [0..<length shp]) (make_ints (length shp), itemsize)))"

definition computeSize :: "int list \<Rightarrow> int" where
  "computeSize shp = (if length shp = 0 then 0 else fold (\<lambda>dim sz. sz * dim) shp 1)"

text \<open>\<open>make([]byte, n)\<close> panics for a negative length; memory is not bounded in the model.\<close>

definition make_bytes :: "int \<Rightarrow> error + byte list" where
  "make_bytes n = (if n < 0 then Inl RuntimePanic else Inr (replicate (nat n) 0))"

text \<open>The slice expression \<open>b[off : off+n]\<close> read, and written through, with Go's bounds
  check; \<open>encoding/binary\<close>'s little-endian codecs.\<close>

definition load :: "byte list \<Rightarrow> int \<Rightarrow> nat \<Rightarrow> error + byte list" where
  "load b off n =
     (if 0 \<le> off \<and> off + int n \<le> int (length b) then Inr (take n (drop (nat off) b))
      else Inl RuntimePanic)"

definition store :: "byte list \<Rightarrow> int \<Rightarrow> byte list \<Rightarrow> error + byte list" where
  "store b off bs =
     (if 0 \<le> off \<and> off + int (length bs) \<le> int (length b)
      then Inr (take (nat off) b @ bs @ drop (nat off + length bs) b)
      else Inl RuntimePanic)"

primrec le_bytes :: "nat \<Rightarrow> 'a::len word \<Rightarrow> byte list" where
  "le_bytes 0 w = []"
| "le_bytes (Suc n) w = ucast w # le_bytes n (drop_bit 8 w)"

definition le_word :: "byte list \<Rightarrow> 'a::len word" where
  "le_word bs = foldr (\<lambda>b acc. ucast b OR push_bit 8 acc) bs 0"

text \<open>Go's integer division and remainder truncate towards zero and panic on a zero
  divisor.\<close>

definition go_quot :: "int \<Rightarrow> int \<Rightarrow> int" where
  "go_quot a b = sgn a * sgn b * (\<bar>a\<bar> div \<bar>b\<bar>)"

definition go_rem :: "int \<Rightarrow> int \<Rightarrow> int" where
  "go_rem a b = a - b * go_quot a b"

subsection \<open>Creation (tensor/creation.go)\<close>

definition Zeros :: "int list \<Rightarrow> DType \<Rightarrow> error + NDArray" where
  "Zeros shp dt =
     (let sz = computeSize shp;
          itemsize = ItemSize dt
      in case make_bytes (sz * itemsize) of
           Inl e \<Rightarrow> Inl e
         | Inr bytes \<Rightarrow>
             Inr \<lparr>data = bytes, shape = shp, strides = computeStrides shp itemsize,
                  dtype = dt, size' = sz, ndim = int (length shp)\<rparr>)"

text \<open>The loop \<open>for i, val := range data\<close> of the \<open>FromSlice\<close> constructors writes
  element \<open>i\<close> at byte offset \<open>i * itemsize\<close>.\<close>

definition fill_elems :: "nat \<Rightarrow> byte list list \<Rightarrow> byte list \<Rightarrow> error + byte list" where
  "fill_elems itemsize elems buf =
     for_loop [0..<length elems] (\<lambda>i b. store b (int i * int itemsize) (elems ! i)) buf"

definition FromSliceFloat64 :: "float64 list \<Rightarrow> int list \<Rightarrow> error + NDArray" where
  "FromSliceFloat64 vals shp =
     (let sz = computeSize shp in
      if int (length vals) \<noteq> sz then Inl ShapeError
      else let itemsize = ItemSize Float64 in
        case make_bytes (sz * itemsize) of
          Inl e \<Rightarrow> Inl e
        | Inr byteData \<Rightarrow>
            (case fill_elems 8 (map (le_bytes 8) vals) byteData of
               Inl e \<Rightarrow> Inl e
             | Inr byteData \<Rightarrow>
                 Inr \<lparr>data = byteData, shape = shp, strides = computeStrides shp itemsize,
                      dtype = Float64, size' = sz, ndim = int (length shp)\<rparr>))"

definition FromSliceInt64 :: "64 word list \<Rightarrow> int list \<Rightarrow> error + NDArray" where
  "FromSliceInt64 vals shp =
     (let sz = computeSize shp in
      if int (length vals) \<noteq> sz then Inl ShapeError
      else let itemsize = ItemSize Int64 in
        case make_bytes (sz * itemsize) of
          Inl e \<Rightarrow> Inl e
        | Inr byteData \<Rightarrow>
            (case fill_elems 8 (map (le_bytes 8) vals) byteData of
               Inl e \<Rightarrow> Inl e
             | Inr byteData \<Rightarrow>
                 Inr \<lparr>data = byteData, shape = shp, strides = computeStrides shp itemsize,
                      dtype = Int64, size' = sz, ndim = int (length shp)\<rparr>))"


subsection \<open>Element access (tensor/indexing.go)\<close>

definition flatIndex :: "NDArray \<Rightarrow> int list \<Rightarrow> error + int" where
  "flatIndex a indices =
     (if int (length indices) \<noteq> ndim a then Inl ShapeError
      else for_loop [0..<length indices]
             (\<lambda>i offset.
                if i \<ge> length (shape a) then Inl RuntimePanic
                else let idx = indices ! i;
                         idx = (if idx < 0 then shape a ! i + idx else idx)
                     in if idx < 0 \<or> idx \<ge> shape a ! i
                        then Inl (IndexError idx i (shape a ! i))
                        else if i \<ge> length (strides a) then Inl RuntimePanic
                        else Inr (offset + idx * strides a ! i))
             0)"

definition f64_one :: float64 where
  "f64_one = 0x3FF0000000000000"

definition GetFloat64 :: "NDArray \<Rightarrow> int list \<Rightarrow> error + float64" where
  "GetFloat64 a indices =
     (case flatIndex a indices of
        Inl e \<Rightarrow> Inl e
      | Inr offset \<Rightarrow>
          if dtype a = Float64 then map_sum id (\<lambda>bs. le_word bs :: 64 word) (load (data a) offset 8)
          else if dtype a = Float32
            then map_sum id (\<lambda>bs. f32_to_f64 (le_word bs)) (load (data a) offset 4)
          else if dtype a = Int64
            then map_sum id (\<lambda>bs. f64_of_int (sint (le_word bs :: 64 word))) (load (data a) offset 8)
          else if dtype a = Int32
            then map_sum id (\<lambda>bs. f64_of_int (sint (le_word bs :: 32 word))) (load (data a) offset 4)
          else if dtype a = Int16
            then map_sum id (\<lambda>bs. f64_of_int (sint (le_word bs :: 16 word))) (load (data a) offset 2)
          else if dtype a = Int8
            then map_sum id (\<lambda>bs. f64_of_int (sint (le_word bs :: 8 word))) (load (data a) offset 1)
          else if dtype a = Uint64
            then map_sum id (\<lambda>bs. f64_of_int (uint (le_word bs :: 64 word))) (load (data a) offset 8)
          else if dtype a = Uint32
            then map_sum id (\<lambda>bs. f64_of_int (uint (le_word bs :: 32 word))) (load (data a) offset 4)
          else if dtype a = Uint16
            then map_sum id (\<lambda>bs. f64_of_int (uint (le_word bs :: 16 word))) (load (data a) offset 2)
          else if dtype a = Uint8
            then map_sum id (\<lambda>bs. f64_of_int (uint (le_word bs :: 8 word))) (load (data a) offset 1)
          else if dtype a = Bool
            then map_sum id (\<lambda>bs. if (le_word bs :: 8 word) \<noteq> 0 then f64_one else 0)
                   (load (data a) offset 1)
          else Inl UnsupportedDTypeError)"

definition GetInt64 :: "NDArray \<Rightarrow> int list \<Rightarrow> error + 64 word" where
  "GetInt64 a indices =
     (case flatIndex a indices of
        Inl e \<Rightarrow> Inl e
      | Inr offset \<Rightarrow>
          if dtype a = Int64 then map_sum id (\<lambda>bs. le_word bs :: 64 word) (load (data a) offset 8)
          else if dtype a = Int32
            then map_sum id (\<lambda>bs. scast (le_word bs :: 32 word)) (load (data a) offset 4)
          else if dtype a = Int16
            then map_sum id (\<lambda>bs. scast (le_word bs :: 16 word)) (load (data a) offset 2)
          else if dtype a = Int8
            then map_sum id (\<lambda>bs. scast (le_word bs :: 8 word)) (load (data a) offset 1)
          else if dtype a = Uint64
            then map_sum id (\<lambda>bs. le_word bs :: 64 word) (load (data a) offset 8)
          else if dtype a = Uint32
            then map_sum id (\<lambda>bs. ucast (le_word bs :: 32 word)) (load (data a) offset 4)
          else if dtype a = Uint16
            then map_sum id (\<lambda>bs. ucast (le_word bs :: 16 word)) (load (data a) offset 2)
          else if dtype a = Uint8
            then map_sum id (\<lambda>bs. ucast (le_word bs :: 8 word)) (load (data a) offset 1)
          else if dtype a = Bool
            then map_sum id (\<lambda>bs. if (le_word bs :: 8 word) \<noteq> 0 then 1 else 0)
                   (load (data a) offset 1)
          else if dtype a = Float64
            then map_sum id (\<lambda>bs. word_of_int (f64_to_int (- (2 ^ 63)) (2 ^ 63 - 1) (le_word bs)))
                   (load (data a) offset 8)
          else if dtype a = Float32
            then map_sum id
                   (\<lambda>bs. word_of_int (f64_to_int (- (2 ^ 63)) (2 ^ 63 - 1) (f32_to_f64 (le_word bs))))
                   (load (data a) offset 4)
          else Inl UnsupportedDTypeError)"

text \<open>The setters mutate the receiver's buffer; the model returns the updated array.\<close>

definition put :: "NDArray \<Rightarrow> int \<Rightarrow> byte list \<Rightarrow> error + NDArray" where
  "put a offset bs = map_sum id (\<lambda>b. a\<lparr>data := b\<rparr>) (store (data a) offset bs)"

definition SetFloat64 :: "NDArray \<Rightarrow> float64 \<Rightarrow> int list \<Rightarrow> error + NDArray" where
  "SetFloat64 a val indices =
     (case flatIndex a indices of
        Inl e \<Rightarrow> Inl e
      | Inr offset \<Rightarrow>
          if dtype a = Float64 then put a offset (le_bytes 8 val)
          else if dtype a = Float32 then put a offset (le_bytes 4 (f64_to_f32 val))
          else if dtype a = Int64
            then put a offset
                   (le_bytes 8 (word_of_int (f64_to_int (- (2 ^ 63)) (2 ^ 63 - 1) val) :: 64 word))
          else if dtype a = Int32
            then put a offset
                   (le_bytes 4 (word_of_int (f64_to_int (- (2 ^ 31)) (2 ^ 31 - 1) val) :: 32 word))
          else if dtype a = Int16
            then put a offset
                   (le_bytes 2 (word_of_int (f64_to_int (- (2 ^ 15)) (2 ^ 15 - 1) val) :: 16 word))
          else if dtype a = Int8
            then put a offset
                   (le_bytes 1 (word_of_int (f64_to_int (- (2 ^ 7)) (2 ^ 7 - 1) val) :: 8 word))
          else if dtype a = Uint64
            then put a offset (le_bytes 8 (word_of_int (f64_to_int 0 (2 ^ 64 - 1) val) :: 64 word))
          else if dtype a = Uint32
            then put a offset (le_bytes 4 (word_of_int (f64_to_int 0 (2 ^ 32 - 1) val) :: 32 word))
          else if dtype a = Uint16
            then put a offset (le_bytes 2 (word_of_int (f64_to_int 0 (2 ^ 16 - 1) val) :: 16 word))
          else if dtype a = Uint8
            then put a offset (le_bytes 1 (word_of_int (f64_to_int 0 (2 ^ 8 - 1) val) :: 8 word))
          else if dtype a = Bool
            then put a offset [if \<not> f64_eq val 0 then 1 else 0]
          else Inl UnsupportedDTypeError)"

definition SetInt64 :: "NDArray \<Rightarrow> 64 word \<Rightarrow> int list \<Rightarrow> error + NDArray" where
  "SetInt64 a val indices =
     (case flatIndex a indices of
        Inl e \<Rightarrow> Inl e
      | Inr offset \<Rightarrow>
          if dtype a = Int64 then put a offset (le_bytes 8 val)
          else if dtype a = Int32 then put a offset (le_bytes 4 (ucast val :: 32 word))
          else if dtype a = Int16 then put a offset (le_bytes 2 (ucast val :: 16 word))
          else if dtype a = Int8 then put a offset (le_bytes 1 (ucast val :: 8 word))
          else if dtype a = Uint64 then put a offset (le_bytes 8 val)
          else if dtype a = Uint32 then put a offset (le_bytes 4 (ucast val :: 32 word))
          else if dtype a = Uint16 then put a offset (le_bytes 2 (ucast val :: 16 word))
          else if dtype a = Uint8 then put a offset (le_bytes 1 (ucast val :: 8 word))
          else if dtype a = Bool then put a offset [if val \<noteq> 0 then 1 else 0]
          else if dtype a = Float64 then put a offset (le_bytes 8 (f64_of_int (sint val)))
          else if dtype a = Float32
            then put a offset
                   (le_bytes 4 (of_nat ((if sint val < 0 then 2 ^ 31 else 0) +
                      ieee_round 24 (- 149) 255 (nat \<bar>sint val\<bar>) 0) :: 32 word))
          else Inl UnsupportedDTypeError)"

definition unravelIndex :: "NDArray \<Rightarrow> int \<Rightarrow> error + int list" where
  "unravelIndex a flatIdx =
     map_sum id fst
       (for_loop (rev [0..<nat (ndim a)])
          (\<lambda>i (indices, remaining).
             if i \<ge> length (shape a) \<or> shape a ! i = 0 then Inl RuntimePanic
             else Inr (indices[i := go_rem remaining (shape a ! i)],
                       go_quot remaining (shape a ! i)))
          (make_ints (nat (ndim a)), flatIdx))"

definition Copy :: "NDArray \<Rightarrow> NDArray" where
  "Copy a = \<lparr>data = go_copy (replicate (length (data a)) 0) (data a), shape = shape a,
             strides = strides a, dtype = dtype a, size' = size' a, ndim = ndim a\<rparr>"

subsection \<open>Shape transforms (tensor: Reshape)\<close>

text \<open>The first loop of \<open>Reshape\<close> finds the placeholder and multiplies the known extents;
  the placeholder is then resolved in place, with Go's truncating division and its panic
  on a zero divisor.\<close>

definition Reshape :: "NDArray \<Rightarrow> int list \<Rightarrow> error + NDArray" where
  "Reshape a newShape =
     (let newSize = computeSize newShape in
      case for_loop [0..<length newShape]
             (\<lambda>i (inferIdx, knownSize).
                let dim = newShape ! i in
                if dim = - 1 then
                  (if inferIdx \<noteq> - 1 then Inl ShapeError else Inr (int i, knownSize))
                else if dim < 0 then Inl ShapeError
                else Inr (inferIdx, knownSize * dim))
             (- 1, 1) of
        Inl e \<Rightarrow> Inl e
      | Inr (inferIdx, knownSize) \<Rightarrow>
          (case (if inferIdx \<noteq> - 1 then
                   (if knownSize = 0 then Inl RuntimePanic
                    else if go_rem (size' a) knownSize \<noteq> 0 then Inl ShapeError
                    else Inr (newShape[nat inferIdx := go_quot (size' a) knownSize], size' a))
                 else Inr (newShape, newSize)) of
             Inl e \<Rightarrow> Inl e
           | Inr (newShape, newSize) \<Rightarrow>
               if newSize \<noteq> size' a then Inl ShapeError
               else let newStrides = computeStrides newShape (ItemSize (dtype a));
                        newData = go_copy (replicate (length (data a)) 0) (data a)
                    in Inr \<lparr>data = newData, shape = newShape, strides = newStrides,
                            dtype = dtype a, size' = newSize, ndim = int (length newShape)\<rparr>))"

definition Flatten :: "NDArray \<Rightarrow> error + NDArray" where
  "Flatten a = Reshape a [size' a]"

section \<open>Broadcasting engine (tensor/arithmetic: broadcastShapes)\<close>

definition broadcastShapes :: "int list \<Rightarrow> int list \<Rightarrow> error + int list" where
  "broadcastShapes shape1 shape2 =
    (let maxLen = (if length shape2 > length shape1 then length shape2 else length shape1);
         s1 = make_ints maxLen;
         s2 = make_ints maxLen;
         offset1 = maxLen - length shape1;
         offset2 = maxLen - length shape2;
         s1 = fold (\<lambda>i s. s[i := 1]) [0..<offset1] s1;
         s2 = fold (\<lambda>i s. s[i := 1]) [0..<offset2] s2;
         s1 = take offset1 s1 @ go_copy (drop offset1 s1) shape1;
         s2 = take offset2 s2 @ go_copy (drop offset2 s2) shape2;
         result = make_ints maxLen
     in for_loop [0..<maxLen]
          (\<lambda>i result.
             if s1 ! i = s2 ! i then Inr (result[i := s1 ! i])
             else if s1 ! i = 1 then Inr (result[i := s2 ! i])
             else if s2 ! i = 1 then Inr (result[i := s1 ! i])
             else Inl (BroadcastError shape1 shape2))
          result)"


text \<open>The rule of the specification, in its own words: both shapes right-aligned and padded
  on the left with 1s, and the joint extent of one aligned axis.\<close>

definition spec_pad_left :: "nat \<Rightarrow> int list \<Rightarrow> int list" where
  "spec_pad_left n shp = replicate (n - length shp) 1 @ shp"

definition spec_joint_extent :: "int \<Rightarrow> int \<Rightarrow> int" where
  "spec_joint_extent dA dB = (if dA = dB then dA else if dA = 1 then dB else dA)"

definition spec_axis_compatible :: "int \<Rightarrow> int \<Rightarrow> bool" where
  "spec_axis_compatible dA dB = (dA = dB \<or> dA = 1 \<or> dB = 1)"

section \<open>Reductions and arithmetic (tensor/reductions.go, tensor/arithmetic)\<close>

definition Sum :: "NDArray \<Rightarrow> error + float64" where
  "Sum a =
     for_loop [0..<nat (size' a)]
       (\<lambda>i sum. case unravelIndex a (int i) of Inl e \<Rightarrow> Inl e | Inr indices \<Rightarrow>
                 case GetFloat64 a indices of Inl e \<Rightarrow> Inl e | Inr v \<Rightarrow> Inr (f64_add sum v))
       0"

text \<open>The loops of \<open>SumAxis\<close> that drop the coordinate \<open>axis\<close>: from the shape (an index
  into the shape, bounds-checked) and from a multi-index of \<open>ndim\<close> entries.\<close>

definition drop_axis_shape :: "NDArray \<Rightarrow> int \<Rightarrow> error + int list" where
  "drop_axis_shape a axis =
     for_loop [0..<nat (ndim a)]
       (\<lambda>i resultShape.
          if int i \<noteq> axis
          then (if i \<ge> length (shape a) then Inl RuntimePanic
                else Inr (resultShape @ [shape a ! i]))
          else Inr resultShape)
       []"

definition drop_axis_index :: "NDArray \<Rightarrow> int \<Rightarrow> int list \<Rightarrow> int list" where
  "drop_axis_index a axis srcIndices =
     fold (\<lambda>j dstIndices. if int j \<noteq> axis then dstIndices @ [srcIndices ! j] else dstIndices)
       [0..<nat (ndim a)] []"

definition SumAxis :: "NDArray \<Rightarrow> int \<Rightarrow> error + NDArray" where
  "SumAxis a axis0 =
     (let axis = (if axis0 < 0 then ndim a + axis0 else axis0) in
      if axis < 0 \<or> axis \<ge> ndim a then Inl AxisError
      else case drop_axis_shape a axis of Inl e \<Rightarrow> Inl e | Inr resultShape \<Rightarrow>
        if length resultShape = 0
        then (case Sum a of Inl e \<Rightarrow> Inl e | Inr s \<Rightarrow> FromSliceFloat64 [s] [1])
        else case Zeros resultShape (dtype a) of Inl e \<Rightarrow> Inl e | Inr result \<Rightarrow>
          for_loop [0..<nat (size' a)]
            (\<lambda>i result.
               case unravelIndex a (int i) of Inl e \<Rightarrow> Inl e | Inr srcIndices \<Rightarrow>
               let dstIndices = drop_axis_index a axis srcIndices in
               case GetFloat64 a srcIndices of Inl e \<Rightarrow> Inl e | Inr val \<Rightarrow>
               case GetFloat64 result dstIndices of Inl e \<Rightarrow> Inl e | Inr currentSum \<Rightarrow>
                 SetFloat64 result (f64_add currentSum val) dstIndices)
            result)"

text \<open>\<open>broadcastTo\<close>: validation of the right-aligned axes, then a full copy in which a source
  axis of extent 1 is always read at index 0.\<close>

definition broadcast_source_index :: "NDArray \<Rightarrow> nat \<Rightarrow> int list \<Rightarrow> error + int list" where
  "broadcast_source_index a offset dstIndices =
     for_loop [0..<nat (ndim a)]
       (\<lambda>j srcIndices.
          if offset + j \<ge> length dstIndices \<or> j \<ge> length (shape a) then Inl RuntimePanic
          else let srcIdx = dstIndices ! (offset + j);
                   srcIdx = (if shape a ! j = 1 then 0 else srcIdx)
               in Inr (srcIndices[j := srcIdx]))
       (make_ints (nat (ndim a)))"

definition broadcastTo :: "NDArray \<Rightarrow> int list \<Rightarrow> error + NDArray" where
  "broadcastTo a targetShape =
     (if length targetShape < length (shape a) then Inl (BroadcastError (shape a) targetShape)
      else let offset = length targetShape - length (shape a) in
        case for_loop [0..<length (shape a)]
               (\<lambda>i (u :: unit).
                  if shape a ! i \<noteq> 1 \<and> shape a ! i \<noteq> targetShape ! (offset + i)
                  then Inl (BroadcastError (shape a) targetShape) else Inr u)
               () of
          Inl e \<Rightarrow> Inl e
        | Inr u \<Rightarrow>
        case Zeros targetShape (dtype a) of Inl e \<Rightarrow> Inl e | Inr result \<Rightarrow>
          for_loop [0..<nat (size' result)]
            (\<lambda>i result.
               case unravelIndex result (int i) of Inl e \<Rightarrow> Inl e | Inr dstIndices \<Rightarrow>
               case broadcast_source_index a offset dstIndices of
                 Inl e \<Rightarrow> Inl e | Inr srcIndices \<Rightarrow>
               case GetFloat64 a srcIndices of Inl e \<Rightarrow> Inl e | Inr val \<Rightarrow>
                 SetFloat64 result val dstIndices)
            result)"

text \<open>\<open>Add\<close>, \<open>Sub\<close>, \<open>Mul\<close> and \<open>Div\<close> are the same function text up to the operator;
  \<open>Gt\<close> and \<open>Lt\<close> likewise, with a \<open>Bool\<close> result that is written only where the comparison
  holds.\<close>

definition elementwise_binary ::
  "(float64 \<Rightarrow> float64 \<Rightarrow> float64) \<Rightarrow> NDArray \<Rightarrow> NDArray \<Rightarrow> error + NDArray" where
  "elementwise_binary f a b =
     (case broadcastShapes (shape a) (shape b) of Inl e \<Rightarrow> Inl e | Inr targetShape \<Rightarrow>
      case broadcastTo a targetShape of Inl e \<Rightarrow> Inl e | Inr aBroad \<Rightarrow>
      case broadcastTo b targetShape of Inl e \<Rightarrow> Inl e | Inr bBroad \<Rightarrow>
      case Zeros targetShape (dtype a) of Inl e \<Rightarrow> Inl e | Inr result \<Rightarrow>
        for_loop [0..<nat (size' result)]
          (\<lambda>i result.
             case unravelIndex result (int i) of Inl e \<Rightarrow> Inl e | Inr indices \<Rightarrow>
             case GetFloat64 aBroad indices of Inl e \<Rightarrow> Inl e | Inr valA \<Rightarrow>
             case GetFloat64 bBroad indices of Inl e \<Rightarrow> Inl e | Inr valB \<Rightarrow>
               SetFloat64 result (f valA valB) indices)
          result)"

definition Add :: "NDArray \<Rightarrow> NDArray \<Rightarrow> error + NDArray" where
  "Add a b = elementwise_binary f64_add a b"

definition Sub :: "NDArray \<Rightarrow> NDArray \<Rightarrow> error + NDArray" where
  "Sub a b = elementwise_binary f64_sub a b"

definition Mul :: "NDArray \<Rightarrow> NDArray \<Rightarrow> error + NDArray" where
  "Mul a b = elementwise_binary f64_mul a b"

definition Div :: "NDArray \<Rightarrow> NDArray \<Rightarrow> error + NDArray" where
  "Div a b = elementwise_binary f64_div a b"

definition elementwise_compare ::
  "(float64 \<Rightarrow> float64 \<Rightarrow> bool) \<Rightarrow> NDArray \<Rightarrow> NDArray \<Rightarrow> error + NDArray" where
  "elementwise_compare p a b =
     (case broadcastShapes (shape a) (shape b) of Inl e \<Rightarrow> Inl e | Inr targetShape \<Rightarrow>
      case broadcastTo a targetShape of Inl e \<Rightarrow> Inl e | Inr aBroad \<Rightarrow>
      case broadcastTo b targetShape of Inl e \<Rightarrow> Inl e | Inr bBroad \<Rightarrow>
      case Zeros targetShape Bool of Inl e \<Rightarrow> Inl e | Inr result \<Rightarrow>
        for_loop [0..<nat (size' result)]
          (\<lambda>i result.
             case unravelIndex result (int i) of Inl e \<Rightarrow> Inl e | Inr indices \<Rightarrow>
             case GetFloat64 aBroad indices of Inl e \<Rightarrow> Inl e | Inr valA \<Rightarrow>
             case GetFloat64 bBroad indices of Inl e \<Rightarrow> Inl e | Inr valB \<Rightarrow>
               if p valA valB then SetFloat64 result f64_one indices else Inr result)
          result)"

definition Gt :: "NDArray \<Rightarrow> NDArray \<Rightarrow> error + NDArray" where
  "Gt a b = elementwise_compare (\<lambda>x y. f64_lt y x) a b"

definition Lt :: "NDArray \<Rightarrow> NDArray \<Rightarrow> error + NDArray" where
  "Lt a b = elementwise_compare f64_lt a b"

text \<open>The scalar operators work on a copy of the receiver.\<close>

definition scalar_op :: "(float64 \<Rightarrow> float64) \<Rightarrow> NDArray \<Rightarrow> error + NDArray" where
  "scalar_op f a =
     (let result = Copy a in
      for_loop [0..<nat (size' result)]
        (\<lambda>i result.
           case unravelIndex result (int i) of Inl e \<Rightarrow> Inl e | Inr indices \<Rightarrow>
           case GetFloat64 result indices of Inl e \<Rightarrow> Inl e | Inr val \<Rightarrow>
             SetFloat64 result (f val) indices)
        result)"

definition AddScalar :: "NDArray \<Rightarrow> float64 \<Rightarrow> error + NDArray" where
  "AddScalar a scalar = scalar_op (\<lambda>val. f64_add val scalar) a"

definition MulScalar :: "NDArray \<Rightarrow> float64 \<Rightarrow> error + NDArray" where
  "MulScalar a scalar = scalar_op (\<lambda>val. f64_mul val scalar) a"

section \<open>Linear algebra (linalg/linalg.go)\<close>

lemma for_loop_cong [fundef_cong]:
  "xs = ys \<Longrightarrow> s = t \<Longrightarrow> (\<And>i s'. i \<in> set ys \<Longrightarrow> f i s' = g i s') \<Longrightarrow>
   for_loop xs f s = for_loop ys g t"
proof (induction ys arbitrary: xs s t)
  case Nil
  then show ?case by simp
next
  case (Cons y ys)
  then have "f y t = g y t" by simp
  moreover have "\<And>u. for_loop ys f u = for_loop ys g u"
    using Cons.prems(3) by (intro Cons.IH) simp_all
  ultimately show ?case
    using Cons.prems(1,2) by (simp split: sum.splits)
qed

text \<open>\<open>getMinor\<close> collects the entries outside row \<open>row\<close> and column \<open>col\<close> in row-major
  order and builds a fresh Float64 array of shape \<open>(n-1, n-1)\<close> from them.\<close>

definition getMinor :: "NDArray \<Rightarrow> int \<Rightarrow> int \<Rightarrow> error + NDArray" where
  "getMinor a row col =
     (if length (shape a) = 0 then Inl RuntimePanic
      else let n = shape a ! 0 in
        case for_loop [0..<nat n]
               (\<lambda>i vals.
                  if int i = row then Inr vals
                  else for_loop [0..<nat n]
                         (\<lambda>j vals.
                            if int j = col then Inr vals
                            else case GetFloat64 a [int i, int j] of
                                   Inl e \<Rightarrow> Inl e
                                 | Inr v \<Rightarrow> Inr (vals @ [v]))
                         vals)
               [] of
          Inl e \<Rightarrow> Inl e
        | Inr vals \<Rightarrow> FromSliceFloat64 vals [n - 1, n - 1])"

lemma getMinor_shape:
  "getMinor a row col = Inr m \<Longrightarrow> shape m = [shape a ! 0 - 1, shape a ! 0 - 1]"
  by (auto simp: getMinor_def FromSliceFloat64_def Let_def split: if_splits sum.splits)

text \<open>\<open>Det\<close>: closed forms for sizes 1 and 2, cofactor expansion along row 0 otherwise.
  The operands of an expression are evaluated, and can panic, from left to right.\<close>

function Det :: "NDArray \<Rightarrow> error + float64" where
  "Det a =
     (if ndim a \<noteq> 2 then Inl DimensionError
      else if length (shape a) < 2 then Inl RuntimePanic
      else if shape a ! 0 \<noteq> shape a ! 1 then Inl DimensionError
      else let n = shape a ! 0 in
        if n = 1 then GetFloat64 a [0, 0]
        else if n = 2 then
          (case GetFloat64 a [0, 0] of Inl e \<Rightarrow> Inl e | Inr a00 \<Rightarrow>
           case GetFloat64 a [1, 1] of Inl e \<Rightarrow> Inl e | Inr a11 \<Rightarrow>
           case GetFloat64 a [0, 1] of Inl e \<Rightarrow> Inl e | Inr a01 \<Rightarrow>
           case GetFloat64 a [1, 0] of Inl e \<Rightarrow> Inl e | Inr a10 \<Rightarrow>
             Inr (f64_sub (f64_mul a00 a11) (f64_mul a01 a10)))
        else for_loop [0..<nat n]
               (\<lambda>j det.
                  case getMinor a 0 (int j) of Inl e \<Rightarrow> Inl e | Inr minor \<Rightarrow>
                  case GetFloat64 a [0, int j] of Inl e \<Rightarrow> Inl e | Inr a0j \<Rightarrow>
                  case Det minor of Inl e \<Rightarrow> Inl e | Inr d \<Rightarrow>
                    let cofactor = f64_mul a0j d in
                    if j mod 2 = 0 then Inr (f64_add det cofactor)
                    else Inr (f64_sub det cofactor))
               0)"
  by pat_completeness auto
termination
proof (relation "measure (\<lambda>a. nat (shape a ! 0))")
  show "wf (measure (\<lambda>a. nat (shape a ! 0)))"
    by simp
next
  fix a :: NDArray and x :: int and i :: nat and s' :: float64 and m :: NDArray and y :: float64
  assume "x = shape a ! 0" "i \<in> set [0..<nat x]" "getMinor a 0 (int i) = Inr m"
  then show "(m, a) \<in> measure (\<lambda>a. nat (shape a ! 0))"
    by (auto dest!: getMinor_shape)
qed

declare Det.simps [simp del]

text \<open>The tolerance \<open>1e-10\<close> is the float64 nearest to \<open>1 / 10 ^ 10\<close>.\<close>

definition f64_1e_10 :: float64 where
  "f64_1e_10 = f64_of_ratio 1 (10 ^ 10)"

definition Inv_augment :: "NDArray \<Rightarrow> nat \<Rightarrow> NDArray \<Rightarrow> error + NDArray" where
  "Inv_augment a n aug =
     for_loop [0..<n]
       (\<lambda>i aug.
          case for_loop [0..<n]
                 (\<lambda>j aug. case GetFloat64 a [int i, int j] of
                             Inl e \<Rightarrow> Inl e
                           | Inr v \<Rightarrow> SetFloat64 aug v [int i, int j])
                 aug of
            Inl e \<Rightarrow> Inl e
          | Inr aug \<Rightarrow> SetFloat64 aug f64_one [int i, int i + int n])
       aug"

definition Inv_eliminate :: "nat \<Rightarrow> NDArray \<Rightarrow> error + NDArray" where
  "Inv_eliminate n aug =
     for_loop [0..<n]
       (\<lambda>i aug.
          case GetFloat64 aug [int i, int i] of Inl e \<Rightarrow> Inl e | Inr pivot \<Rightarrow>
          if f64_lt (f64_abs pivot) f64_1e_10 then Inl SingularMatrixError
          else
            case for_loop [0..<2 * n]
                   (\<lambda>j aug. case GetFloat64 aug [int i, int j] of
                               Inl e \<Rightarrow> Inl e
                             | Inr v \<Rightarrow> SetFloat64 aug (f64_div v pivot) [int i, int j])
                   aug of
              Inl e \<Rightarrow> Inl e
            | Inr aug \<Rightarrow>
                for_loop [0..<n]
                  (\<lambda>k aug.
                     if k = i then Inr aug
                     else case GetFloat64 aug [int k, int i] of Inl e \<Rightarrow> Inl e | Inr factor \<Rightarrow>
                       for_loop [0..<2 * n]
                         (\<lambda>j aug.
                            case GetFloat64 aug [int k, int j] of Inl e \<Rightarrow> Inl e | Inr akj \<Rightarrow>
                            case GetFloat64 aug [int i, int j] of Inl e \<Rightarrow> Inl e | Inr aij \<Rightarrow>
                              SetFloat64 aug (f64_sub akj (f64_mul factor aij)) [int k, int j])
                         aug)
                  aug)
       aug"

definition Inv_extract :: "nat \<Rightarrow> NDArray \<Rightarrow> NDArray \<Rightarrow> error + NDArray" where
  "Inv_extract n aug result =
     for_loop [0..<n]
       (\<lambda>i result.
          for_loop [0..<n]
            (\<lambda>j result. case GetFloat64 aug [int i, int j + int n] of
                            Inl e \<Rightarrow> Inl e
                          | Inr v \<Rightarrow> SetFloat64 result v [int i, int j])
            result)
       result"

text \<open>\<open>Inv\<close>: the three phases above, on an augmented matrix of shape \<open>(n, 2n)\<close>.\<close>

definition Inv :: "NDArray \<Rightarrow> error + NDArray" where
  "Inv a =
     (if ndim a \<noteq> 2 then Inl DimensionError
      else if length (shape a) < 2 then Inl RuntimePanic
      else if shape a ! 0 \<noteq> shape a ! 1 then Inl DimensionError
      else let n = shape a ! 0 in
        case Zeros [n, 2 * n] Float64 of Inl e \<Rightarrow> Inl e | Inr aug \<Rightarrow>
        case Inv_augment a (nat n) aug of Inl e \<Rightarrow> Inl e | Inr aug \<Rightarrow>
        case Inv_eliminate (nat n) aug of Inl e \<Rightarrow> Inl e | Inr aug \<Rightarrow>
        case Zeros [n, n] Float64 of Inl e \<Rightarrow> Inl e | Inr result \<Rightarrow>
          Inv_extract (nat n) aug result)"

section \<open>Specification-level notions used in the statements\<close>

text \<open>Index normalization in the words of the specification: a negative index \<open>i\<close> on an
  axis of extent \<open>n\<close> stands for \<open>n + i\<close>, and the access is in bounds when the normalized
  index lies in \<open>[0, n)\<close>.\<close>

definition spec_normalize :: "int \<Rightarrow> int \<Rightarrow> int" where
  "spec_normalize n i = (if i < 0 then n + i else i)"

definition spec_in_bounds :: "int \<Rightarrow> int \<Rightarrow> bool" where
  "spec_in_bounds n i = (0 \<le> spec_normalize n i \<and> spec_normalize n i < n)"



text \<open>The Float64 array of a given shape whose elements, in row-major order, are \<open>vals\<close>:
  the view under which the byte buffer is read in the statements below.\<close>

definition f64_array :: "float64 list \<Rightarrow> int list \<Rightarrow> NDArray" where
  "f64_array vals shp =
     \<lparr>data = concat (map (le_bytes 8) vals), shape = shp, strides = computeStrides shp 8,
      dtype = Float64, size' = computeSize shp, ndim = int (length shp)\<rparr>"

text \<open>The determinant in the words of the specification, on an \<open>n\<close> by \<open>n\<close> matrix given
  by its entries \<open>A i j\<close>: closed forms for \<open>n = 1\<close> and \<open>n = 2\<close>, and for \<open>n \<ge> 3\<close> the
  expansion along row 0 with sign alternating by column parity, each term \<open>A 0 j\<close> times
  the determinant of the minor without row 0 and column \<open>j\<close>, accumulated from 0 in column
  order.\<close>

definition spec_minor :: "(nat \<Rightarrow> nat \<Rightarrow> float64) \<Rightarrow> nat \<Rightarrow> nat \<Rightarrow> nat \<Rightarrow> float64" where
  "spec_minor A col = (\<lambda>i j. A (Suc i) (if j < col then j else Suc j))"

primrec spec_det :: "nat \<Rightarrow> (nat \<Rightarrow> nat \<Rightarrow> float64) \<Rightarrow> float64" where
  "spec_det 0 A = 0"
| "spec_det (Suc m) A =
     (if m = 0 then A 0 0
      else if m = 1 then f64_sub (f64_mul (A 0 0) (A 1 1)) (f64_mul (A 0 1) (A 1 0))
      else foldl (\<lambda>det j.
                    if even j then f64_add det (f64_mul (A 0 j) (spec_det m (spec_minor A j)))
                    else f64_sub det (f64_mul (A 0 j) (spec_det m (spec_minor A j))))
             0 [0..<Suc m])"

text \<open>Matrix inversion in the words of the specification, on matrices given by their
  entries \<open>M i j\<close>: the augmented matrix \<open>[A | I]\<close> of width \<open>2n\<close>; for each pivot row \<open>i\<close> in
  order, failure when \<open>|M i i| < 1e-10\<close>, else the pivot row divided by the pivot and
  column \<open>i\<close> eliminated from every other row; the right half of the reduced matrix.\<close>

definition spec_augment :: "nat \<Rightarrow> (nat \<Rightarrow> nat \<Rightarrow> float64) \<Rightarrow> nat \<Rightarrow> nat \<Rightarrow> float64" where
  "spec_augment n A = (\<lambda>i j. if j < n then A i j else if j = i + n then f64_one else 0)"

definition spec_normalize_row :: "nat \<Rightarrow> (nat \<Rightarrow> nat \<Rightarrow> float64) \<Rightarrow> nat \<Rightarrow> nat \<Rightarrow> float64" where
  "spec_normalize_row i M = (\<lambda>r c. if r = i then f64_div (M i c) (M i i) else M r c)"

definition spec_eliminate :: "nat \<Rightarrow> (nat \<Rightarrow> nat \<Rightarrow> float64) \<Rightarrow> nat \<Rightarrow> nat \<Rightarrow> float64" where
  "spec_eliminate i M = (\<lambda>r c. if r = i then M r c else f64_sub (M r c) (f64_mul (M r i) (M i c)))"

definition spec_pivot_step ::
  "nat \<Rightarrow> (nat \<Rightarrow> nat \<Rightarrow> float64) \<Rightarrow> (nat \<Rightarrow> nat \<Rightarrow> float64) option" where
  "spec_pivot_step i M =
     (if f64_lt (f64_abs (M i i)) f64_1e_10 then None
      else Some (spec_eliminate i (spec_normalize_row i M)))"

definition spec_gauss_jordan ::
  "nat \<Rightarrow> (nat \<Rightarrow> nat \<Rightarrow> float64) \<Rightarrow> (nat \<Rightarrow> nat \<Rightarrow> float64) option" where
  "spec_gauss_jordan n M =
     foldl (\<lambda>Mo i. case Mo of None \<Rightarrow> None | Some M' \<Rightarrow> spec_pivot_step i M') (Some M) [0..<n]"

definition spec_right_half :: "nat \<Rightarrow> (nat \<Rightarrow> nat \<Rightarrow> float64) \<Rightarrow> nat \<Rightarrow> nat \<Rightarrow> float64" where
  "spec_right_half n M = (\<lambda>i j. M i (j + n))"

text \<open>The row-major list of the entries of an \<open>r\<close> by \<open>c\<close> matrix.\<close>

definition mat_list :: "nat \<Rightarrow> nat \<Rightarrow> (nat \<Rightarrow> nat \<Rightarrow> float64) \<Rightarrow> float64 list" where
  "mat_list r c M = map (\<lambda>k. M (k div c) (k mod c)) [0..<r * c]"

text \<open>Row-major index arithmetic in closed form: the C-contiguous strides of a shape, the
  linear position of a multi-index, and the multi-index of a linear position.\<close>

fun spec_strides :: "int \<Rightarrow> int list \<Rightarrow> int list" where
  "spec_strides it [] = []"
| "spec_strides it (d # shp) = (it * prod_list shp) # spec_strides it shp"

fun spec_ravel :: "int list \<Rightarrow> int list \<Rightarrow> int" where
  "spec_ravel (d # shp) (i # idx) = i * prod_list shp + spec_ravel shp idx"
| "spec_ravel shp idx = 0"

fun spec_unravel :: "int list \<Rightarrow> int \<Rightarrow> int list" where
  "spec_unravel [] i = []"
| "spec_unravel (d # shp) i = ((i div prod_list shp) mod d) # spec_unravel shp i"

definition spec_index_ok :: "int list \<Rightarrow> int list \<Rightarrow> bool" where
  "spec_index_ok shp idx = list_all2 (\<lambda>d i. 0 \<le> i \<and> i < d) shp idx"

text \<open>The source multi-index that \<open>broadcastTo\<close> reads for a destination multi-index: the
  right-aligned coordinates, with 0 on every source axis of extent 1.\<close>

definition spec_broadcast_index :: "int list \<Rightarrow> nat \<Rightarrow> int list \<Rightarrow> int list" where
  "spec_broadcast_index srcShape offset dst =
     map (\<lambda>j. if srcShape ! j = 1 then 0 else dst ! (offset + j)) [0..<length srcShape]"

text \<open>The row-major position in a source of shape \<open>srcShape\<close> that is materialized at
  row-major position \<open>i\<close> of the broadcast shape \<open>target\<close>.\<close>

definition spec_broadcast_pos :: "int list \<Rightarrow> int list \<Rightarrow> nat \<Rightarrow> nat" where
  "spec_broadcast_pos srcShape target i =
     nat (spec_ravel srcShape
            (spec_broadcast_index srcShape (length target - length srcShape)
               (spec_unravel target (int i))))"

section \<open>Properties of the broadcasting engine\<close>

lemma fold_ones_make_ints:
  "k \<le> n \<Longrightarrow>
   fold (\<lambda>i s. s[i := 1]) [0..<k] (make_ints n) = replicate k 1 @ replicate (n - k) 0"
proof (induction k)
  case 0
  then show ?case by (simp add: make_ints_def)
next
  case (Suc k)
  then obtain m where m: "n - k = Suc m"
    by (metis Suc_diff_Suc Suc_le_lessD)
  then have "n - Suc k = m" by simp
  with m Suc show ?case
    by (simp add: list_update_append replicate_append_same)
qed

lemma right_align_pad:
  "length sh \<le> n \<Longrightarrow>
   take (n - length sh) (fold (\<lambda>i s. s[i := 1]) [0..<n - length sh] (make_ints n)) @
   go_copy (drop (n - length sh) (fold (\<lambda>i s. s[i := 1]) [0..<n - length sh] (make_ints n))) sh
   = spec_pad_left n sh"
  by (simp add: fold_ones_make_ints go_copy_def spec_pad_left_def)

lemma broadcast_loop:
  assumes "length s1 = n" "length s2 = n" "length r = n" "k \<le> n"
  shows "for_loop [k..<n]
          (\<lambda>i result.
             if s1 ! i = s2 ! i then Inr (result[i := s1 ! i])
             else if s1 ! i = 1 then Inr (result[i := s2 ! i])
             else if s2 ! i = 1 then Inr (result[i := s1 ! i])
             else Inl e) r
       = (if \<forall>i. k \<le> i \<and> i < n \<longrightarrow> spec_axis_compatible (s1 ! i) (s2 ! i)
          then Inr (take k r @ map2 spec_joint_extent (drop k s1) (drop k s2)) else Inl e)"
  using assms
proof (induction "n - k" arbitrary: k r)
  case 0
  then show ?case by simp
next
  case (Suc d)
  let ?body = "(\<lambda>i result.
             if s1 ! i = s2 ! i then Inr (result[i := s1 ! i])
             else if s1 ! i = 1 then Inr (result[i := s2 ! i])
             else if s2 ! i = 1 then Inr (result[i := s1 ! i])
             else Inl e)"
  from Suc have kn: "k < n" by simp
  have up: "[k..<n] = k # [Suc k..<n]"
    using kn by (simp add: upt_conv_Cons)
  show ?case
  proof (cases "spec_axis_compatible (s1 ! k) (s2 ! k)")
    case False
    then show ?thesis
      using kn by (auto simp: up spec_axis_compatible_def)
  next
    case True
    have IH: "\<And>r'. length r' = n \<Longrightarrow> for_loop [Suc k..<n] ?body r' =
        (if \<forall>i. Suc k \<le> i \<and> i < n \<longrightarrow> spec_axis_compatible (s1 ! i) (s2 ! i)
         then Inr (take (Suc k) r' @ map2 spec_joint_extent (drop (Suc k) s1) (drop (Suc k) s2))
         else Inl e)"
      using Suc(1)[of "Suc k"] Suc(2-) kn by simp
    have all: "(\<forall>i. k \<le> i \<and> i < n \<longrightarrow> spec_axis_compatible (s1 ! i) (s2 ! i)) =
        (\<forall>i. Suc k \<le> i \<and> i < n \<longrightarrow> spec_axis_compatible (s1 ! i) (s2 ! i))"
      using True by (metis Suc_leD Suc_le_eq le_neq_implies_less)
    have d1: "drop k s1 = s1 ! k # drop (Suc k) s1"
      using kn Suc by (simp add: Cons_nth_drop_Suc)
    have d2: "drop k s2 = s2 ! k # drop (Suc k) s2"
      using kn Suc by (simp add: Cons_nth_drop_Suc)
    have tk: "\<And>v. take (Suc k) (r[k := v]) = take k r @ [v]"
      using kn Suc by (simp add: take_Suc_conv_app_nth)
    have step: "?body k r = Inr (r[k := spec_joint_extent (s1 ! k) (s2 ! k)])"
      using True by (auto simp: spec_joint_extent_def spec_axis_compatible_def)
    have "for_loop [k..<n] ?body r =
        for_loop [Suc k..<n] ?body (r[k := spec_joint_extent (s1 ! k) (s2 ! k)])"
      unfolding up for_loop.simps step by simp
    also have "\<dots> =
        (if \<forall>i. Suc k \<le> i \<and> i < n \<longrightarrow> spec_axis_compatible (s1 ! i) (s2 ! i)
         then Inr (take (Suc k) (r[k := spec_joint_extent (s1 ! k) (s2 ! k)]) @
                   map2 spec_joint_extent (drop (Suc k) s1) (drop (Suc k) s2))
         else Inl e)"
      by (rule IH) (simp add: Suc)
    finally show ?thesis
      unfolding all by (simp add: d1 d2 tk)
  qed
qed

lemma broadcastShapes_eq:
  "broadcastShapes shape1 shape2 =
    (let n = max (length shape1) (length shape2);
         sA = spec_pad_left n shape1;
         sB = spec_pad_left n shape2
     in if \<forall>i<n. spec_axis_compatible (sA ! i) (sB ! i)
        then Inr (map2 spec_joint_extent sA sB)
        else Inl (BroadcastError shape1 shape2))"
proof -
  define n where "n = max (length shape1) (length shape2)"
  have n: "(if length shape2 > length shape1 then length shape2 else length shape1) = n"
    by (simp add: n_def max_def)
  have l1: "length shape1 \<le> n" and l2: "length shape2 \<le> n"
    by (simp_all add: n_def)
  have len: "length (spec_pad_left n shape1) = n" "length (spec_pad_left n shape2) = n"
    using l1 l2 by (simp_all add: spec_pad_left_def)
  have "broadcastShapes shape1 shape2 =
      for_loop [0..<n]
          (\<lambda>i result.
             if spec_pad_left n shape1 ! i = spec_pad_left n shape2 ! i
             then Inr (result[i := spec_pad_left n shape1 ! i])
             else if spec_pad_left n shape1 ! i = 1
             then Inr (result[i := spec_pad_left n shape2 ! i])
             else if spec_pad_left n shape2 ! i = 1
             then Inr (result[i := spec_pad_left n shape1 ! i])
             else Inl (BroadcastError shape1 shape2))
          (make_ints n)"
    unfolding broadcastShapes_def n Let_def
    by (simp only: right_align_pad[OF l1] right_align_pad[OF l2])
  also have "\<dots> =
      (if \<forall>i. 0 \<le> i \<and> i < n \<longrightarrow>
            spec_axis_compatible (spec_pad_left n shape1 ! i) (spec_pad_left n shape2 ! i)
       then Inr (take 0 (make_ints n) @
                 map2 spec_joint_extent (drop 0 (spec_pad_left n shape1))
                   (drop 0 (spec_pad_left n shape2)))
       else Inl (BroadcastError shape1 shape2))"
    by (rule broadcast_loop) (simp_all add: len make_ints_def)
  finally show ?thesis
    by (simp add: Let_def n_def)
qed

text \<open>
  Claim C1.  For all shapes, \<open>broadcastShapes\<close> right-aligns both shapes, pads the shorter
  one on the left with 1s up to the longer length, and returns for every aligned axis
  \<open>dA\<close> when \<open>dA = dB\<close> and otherwise the extent that is not 1; when on some axis the
  extents differ and neither is 1, it fails with the broadcast error that names both
  shapes.  In particular the shapes (2,3) and (4,5) cannot be broadcast together.
\<close>

theorem broadcastShapes_spec:
  "broadcastShapes shape1 shape2 =
    (let n = max (length shape1) (length shape2);
         sA = spec_pad_left n shape1;
         sB = spec_pad_left n shape2
     in if \<forall>i<n. sA ! i = sB ! i \<or> sA ! i = 1 \<or> sB ! i = 1
        then Inr (map2 (\<lambda>dA dB. if dA = dB then dA else if dA = 1 then dB else dA) sA sB)
        else Inl (BroadcastError shape1 shape2))
   \<and> broadcastShapes [2, 3] [4, 5] = Inl (BroadcastError [2, 3] [4, 5])"
proof
  have j: "spec_joint_extent = (\<lambda>dA dB. if dA = dB then dA else if dA = 1 then dB else dA)"
    by (simp add: fun_eq_iff spec_joint_extent_def)
  show "broadcastShapes shape1 shape2 =
    (let n = max (length shape1) (length shape2);
         sA = spec_pad_left n shape1;
         sB = spec_pad_left n shape2
     in if \<forall>i<n. sA ! i = sB ! i \<or> sA ! i = 1 \<or> sB ! i = 1
        then Inr (map2 (\<lambda>dA dB. if dA = dB then dA else if dA = 1 then dB else dA) sA sB)
        else Inl (BroadcastError shape1 shape2))"
    unfolding broadcastShapes_eq j[symmetric] by (simp add: spec_axis_compatible_def)
  show "broadcastShapes [2, 3] [4, 5] = Inl (BroadcastError [2, 3] [4, 5])"
    unfolding broadcastShapes_eq
    by (simp add: spec_pad_left_def spec_axis_compatible_def Let_def All_less_Suc)
qed

theorem broadcastShapes_spec_witness:
  "broadcastShapes [4, 1, 3] [2, 1] = Inr [4, 2, 3] \<and>
   broadcastShapes [2, 3] [4, 5] = Inl (BroadcastError [2, 3] [4, 5])"
  using broadcastShapes_spec[of "[4, 1, 3]" "[2, 1]"]
  by (simp add: spec_pad_left_def Let_def All_less_Suc numeral_3_eq_3)

section \<open>Properties of element access\<close>

lemma for_loop_append:
  "for_loop (xs @ ys) body s =
     (case for_loop xs body s of Inl e \<Rightarrow> Inl e | Inr s' \<Rightarrow> for_loop ys body s')"
  by (induction xs arbitrary: s) (auto split: sum.splits)

lemma for_loop_snoc:
  "for_loop [0..<Suc n] body s =
     (case for_loop [0..<n] body s of Inl e \<Rightarrow> Inl e | Inr s' \<Rightarrow> body n s')"
  by (simp add: for_loop_append split: sum.splits)

lemma flatIndex_loop:
  assumes "n \<le> length shp" "n \<le> length strs"
  shows "if \<forall>k<n. spec_in_bounds (shp ! k) (indices ! k)
     then for_loop [0..<n]
             (\<lambda>i offset.
                if i \<ge> length shp then Inl RuntimePanic
                else let idx = indices ! i;
                         idx = (if idx < 0 then shp ! i + idx else idx)
                     in if idx < 0 \<or> idx \<ge> shp ! i
                        then Inl (IndexError idx i (shp ! i))
                        else if i \<ge> length strs then Inl RuntimePanic
                        else Inr (offset + idx * strs ! i))
             0 = Inr (\<Sum>k<n. spec_normalize (shp ! k) (indices ! k) * strs ! k)
     else \<exists>k<n. \<not> spec_in_bounds (shp ! k) (indices ! k) \<and>
            (\<forall>j<k. spec_in_bounds (shp ! j) (indices ! j)) \<and>
          for_loop [0..<n]
             (\<lambda>i offset.
                if i \<ge> length shp then Inl RuntimePanic
                else let idx = indices ! i;
                         idx = (if idx < 0 then shp ! i + idx else idx)
                     in if idx < 0 \<or> idx \<ge> shp ! i
                        then Inl (IndexError idx i (shp ! i))
                        else if i \<ge> length strs then Inl RuntimePanic
                        else Inr (offset + idx * strs ! i))
             0 = Inl (IndexError (spec_normalize (shp ! k) (indices ! k)) k (shp ! k))"
  using assms
proof (induction n)
  case 0
  then show ?case by simp
next
  case (Suc n)
  let ?body = "(\<lambda>i offset.
                if i \<ge> length shp then Inl RuntimePanic
                else let idx = indices ! i;
                         idx = (if idx < 0 then shp ! i + idx else idx)
                     in if idx < 0 \<or> idx \<ge> shp ! i
                        then Inl (IndexError idx i (shp ! i))
                        else if i \<ge> length strs then Inl RuntimePanic
                        else Inr (offset + idx * strs ! i))"
  let ?ok = "\<lambda>k. spec_in_bounds (shp ! k) (indices ! k)"
  let ?nrm = "\<lambda>k. spec_normalize (shp ! k) (indices ! k)"
  from Suc.prems have n: "n < length shp" "n < length strs" by simp_all
  have IH: "if \<forall>k<n. ?ok k
     then for_loop [0..<n] ?body 0 = Inr (\<Sum>k<n. ?nrm k * strs ! k)
     else \<exists>k<n. \<not> ?ok k \<and> (\<forall>j<k. ?ok j) \<and>
          for_loop [0..<n] ?body 0 = Inl (IndexError (?nrm k) k (shp ! k))"
    using Suc.IH n by simp
  have step: "\<And>off. ?body n off =
      (if ?ok n then Inr (off + ?nrm n * strs ! n)
       else Inl (IndexError (?nrm n) n (shp ! n)))"
    using n by (auto simp: spec_in_bounds_def spec_normalize_def Let_def)
  show ?case
  proof (cases "\<forall>k<n. ?ok k")
    case True
    with IH have l: "for_loop [0..<n] ?body 0 = Inr (\<Sum>k<n. ?nrm k * strs ! k)"
      by simp
    show ?thesis
    proof (cases "?ok n")
      case ok: True
      with True have "\<forall>k<Suc n. ?ok k" by (simp add: less_Suc_eq)
      moreover have "for_loop [0..<Suc n] ?body 0 = Inr (\<Sum>k<Suc n. ?nrm k * strs ! k)"
        unfolding for_loop_snoc l using ok by (simp add: step)
      ultimately show ?thesis by simp
    next
      case bad: False
      then have "\<not> (\<forall>k<Suc n. ?ok k)" by auto
      moreover have "for_loop [0..<Suc n] ?body 0 = Inl (IndexError (?nrm n) n (shp ! n))"
        unfolding for_loop_snoc l using bad by (simp add: step)
      ultimately show ?thesis using bad True by auto
    qed
  next
    case False
    with IH obtain k where k: "k < n" "\<not> ?ok k" "\<forall>j<k. ?ok j"
       "for_loop [0..<n] ?body 0 = Inl (IndexError (?nrm k) k (shp ! k))"
      by auto
    have "for_loop [0..<Suc n] ?body 0 = Inl (IndexError (?nrm k) k (shp ! k))"
      unfolding for_loop_snoc k(4) by simp
    moreover have "\<not> (\<forall>k<Suc n. ?ok k)"
      using k(1,2) less_SucI by blast
    ultimately show ?thesis
      using k(1,2,3) less_SucI by auto
  qed
qed

lemma flatIndex_normalized:
  assumes "ndim a = int (length (shape a))" "length (strides a) = length (shape a)"
    "length indices = length (shape a)"
  shows "if \<forall>k<length indices. spec_in_bounds (shape a ! k) (indices ! k)
     then flatIndex a indices =
            Inr (\<Sum>k<length indices. spec_normalize (shape a ! k) (indices ! k) * strides a ! k)
     else \<exists>k<length indices. \<not> spec_in_bounds (shape a ! k) (indices ! k) \<and>
            (\<forall>j<k. spec_in_bounds (shape a ! j) (indices ! j)) \<and>
            flatIndex a indices =
              Inl (IndexError (spec_normalize (shape a ! k) (indices ! k)) k (shape a ! k))"
proof -
  have len: "length indices \<le> length (shape a)" "length indices \<le> length (strides a)"
    using assms by simp_all
  have c: "int (length indices) = ndim a"
    using assms by simp
  have fi: "flatIndex a indices = for_loop [0..<length indices]
             (\<lambda>i offset.
                if i \<ge> length (shape a) then Inl RuntimePanic
                else let idx = indices ! i;
                         idx = (if idx < 0 then shape a ! i + idx else idx)
                     in if idx < 0 \<or> idx \<ge> shape a ! i
                        then Inl (IndexError idx i (shape a ! i))
                        else if i \<ge> length (strides a) then Inl RuntimePanic
                        else Inr (offset + idx * strides a ! i))
             0"
    unfolding flatIndex_def c by simp
  show ?thesis
    unfolding fi by (rule flatIndex_loop[OF len])
qed

lemma flatIndex_IndexError_iff:
  assumes "ndim a = int (length (shape a))" "length (strides a) = length (shape a)"
    "length indices = length (shape a)"
  shows "(\<exists>i k n. flatIndex a indices = Inl (IndexError i k n)) \<longleftrightarrow>
         (\<exists>k<length indices. \<not> spec_in_bounds (shape a ! k) (indices ! k))"
  using flatIndex_normalized[OF assms] by (auto split: if_splits)

lemma load_not_IndexError: "map_sum id f (load b off n) \<noteq> Inl (IndexError i k m)"
  by (simp add: load_def)

lemma put_not_IndexError: "put a off bs \<noteq> Inl (IndexError i k m)"
  by (simp add: put_def store_def)

lemma GetFloat64_IndexError_iff:
  "(\<exists>i k n. GetFloat64 a indices = Inl (IndexError i k n)) \<longleftrightarrow>
   (\<exists>i k n. flatIndex a indices = Inl (IndexError i k n))"
  by (cases "flatIndex a indices") (simp_all add: GetFloat64_def load_not_IndexError)

lemma GetInt64_IndexError_iff:
  "(\<exists>i k n. GetInt64 a indices = Inl (IndexError i k n)) \<longleftrightarrow>
   (\<exists>i k n. flatIndex a indices = Inl (IndexError i k n))"
  by (cases "flatIndex a indices") (simp_all add: GetInt64_def load_not_IndexError)

lemma SetFloat64_IndexError_iff:
  "(\<exists>i k n. SetFloat64 a v indices = Inl (IndexError i k n)) \<longleftrightarrow>
   (\<exists>i k n. flatIndex a indices = Inl (IndexError i k n))"
  by (cases "flatIndex a indices") (simp_all add: SetFloat64_def put_not_IndexError)

lemma SetInt64_IndexError_iff:
  "(\<exists>i k n. SetInt64 a v indices = Inl (IndexError i k n)) \<longleftrightarrow>
   (\<exists>i k n. flatIndex a indices = Inl (IndexError i k n))"
  by (cases "flatIndex a indices") (simp_all add: SetInt64_def put_not_IndexError)

subsection \<open>Evaluating the model on concrete arrays\<close>

lemma le_bytes_8:
  "le_bytes 8 w =
     [ucast w, ucast (drop_bit 8 w), ucast (drop_bit 16 w), ucast (drop_bit 24 w),
      ucast (drop_bit 32 w), ucast (drop_bit 40 w), ucast (drop_bit 48 w),
      ucast (drop_bit 56 w)]"
proof -
  have "(8::nat) = Suc (Suc (Suc (Suc (Suc (Suc (Suc (Suc 0)))))))"
    by simp
  then have "le_bytes 8 w = le_bytes (Suc (Suc (Suc (Suc (Suc (Suc (Suc (Suc 0)))))))) w"
    by (rule arg_cong)
  then show ?thesis
    by (simp only: le_bytes.simps drop_bit_drop_bit) simp
qed

lemmas dtype_defs =
  Bool_def Int8_def Int16_def Int32_def Int64_def Uint8_def Uint16_def Uint32_def Uint64_def
  Float32_def Float64_def Complex64_def Complex128_def

lemmas f64_eval =
  f64_add_def f64_sub_def f64_mul_def f64_of_int_def f64_round_def ieee_round_def
  round_half_even_def nbits_def f64_isNaN_def f64_isInf_def f64_field_def f64_frac_def
  f64_neg_def f64_mant_def f64_exp_def f64_smant_def f64_zero_def f64_negate_def
  compute_floorlog Let_def

lemma f64_of_int_1_4:
  "f64_of_int 1 = 0x3FF0000000000000" "f64_of_int 2 = 0x4000000000000000"
  "f64_of_int 3 = 0x4008000000000000" "f64_of_int 4 = 0x4010000000000000"
  by (simp_all add: f64_eval)

lemma FromSliceFloat64_2x2:
  "FromSliceFloat64 (map f64_of_int [1, 2, 3, 4]) [2, 2] =
     Inr \<lparr>data = [0, 0, 0, 0, 0, 0, 240, 63, 0, 0, 0, 0, 0, 0, 0, 64,
                  0, 0, 0, 0, 0, 0, 8, 64, 0, 0, 0, 0, 0, 0, 16, 64],
          shape = [2, 2], strides = [16, 8], dtype = Float64, size' = 4, ndim = 2\<rparr>"
  by (simp add: f64_of_int_1_4 FromSliceFloat64_def computeSize_def make_bytes_def
      fill_elems_def store_def le_bytes_8 computeStrides_def ItemSize_def make_ints_def
      dtype_defs Let_def)

lemma GetFloat64_2x2_negative:
  "GetFloat64 \<lparr>data = [0, 0, 0, 0, 0, 0, 240, 63, 0, 0, 0, 0, 0, 0, 0, 64,
                      0, 0, 0, 0, 0, 0, 8, 64, 0, 0, 0, 0, 0, 0, 16, 64],
          shape = [2, 2], strides = [16, 8], dtype = Float64, size' = 4, ndim = 2\<rparr>
       [- 1, - 1] = Inr (f64_of_int 4)"
  "GetFloat64 \<lparr>data = [0, 0, 0, 0, 0, 0, 240, 63, 0, 0, 0, 0, 0, 0, 0, 64,
                      0, 0, 0, 0, 0, 0, 8, 64, 0, 0, 0, 0, 0, 0, 16, 64],
          shape = [2, 2], strides = [16, 8], dtype = Float64, size' = 4, ndim = 2\<rparr>
       [- 2, - 2] = Inr (f64_of_int 1)"
  by (simp_all add: f64_of_int_1_4 GetFloat64_def flatIndex_def load_def le_word_def Let_def)

text \<open>
  Claim C2.  For a multi-index with one index per axis, \<open>flatIndex\<close> (and so each of
  \<open>GetFloat64\<close>, \<open>GetInt64\<close>, \<open>SetFloat64\<close>, \<open>SetInt64\<close>) replaces a negative index \<open>i\<close>
  on an axis of extent \<open>n\<close> by \<open>n + i\<close>; it returns the byte offset built from the
  normalized indices when each of them lies in \<open>[0, n)\<close>, and fails with the index error
  of the first offending axis exactly when some normalized index lies outside.  On the
  2 by 2 array made from 1, 2, 3, 4 the element at (-1,-1) is 4 and the one at (-2,-2) is 1.
\<close>

theorem element_access_normalizes_indices:
  assumes "ndim a = int (length (shape a))"
    and "length (strides a) = length (shape a)"
    and "length indices = length (shape a)"
  shows "(if \<forall>k<length indices. spec_in_bounds (shape a ! k) (indices ! k)
          then flatIndex a indices =
            Inr (\<Sum>k<length indices. spec_normalize (shape a ! k) (indices ! k) * strides a ! k)
          else \<exists>k<length indices. \<not> spec_in_bounds (shape a ! k) (indices ! k) \<and>
            (\<forall>j<k. spec_in_bounds (shape a ! j) (indices ! j)) \<and>
            flatIndex a indices =
              Inl (IndexError (spec_normalize (shape a ! k) (indices ! k)) k (shape a ! k)))
       \<and> ((\<exists>i k n. GetFloat64 a indices = Inl (IndexError i k n)) \<longleftrightarrow>
            (\<exists>k<length indices. \<not> spec_in_bounds (shape a ! k) (indices ! k)))
       \<and> ((\<exists>i k n. GetInt64 a indices = Inl (IndexError i k n)) \<longleftrightarrow>
            (\<exists>k<length indices. \<not> spec_in_bounds (shape a ! k) (indices ! k)))
       \<and> ((\<exists>i k n. SetFloat64 a v indices = Inl (IndexError i k n)) \<longleftrightarrow>
            (\<exists>k<length indices. \<not> spec_in_bounds (shape a ! k) (indices ! k)))
       \<and> ((\<exists>i k n. SetInt64 a w indices = Inl (IndexError i k n)) \<longleftrightarrow>
            (\<exists>k<length indices. \<not> spec_in_bounds (shape a ! k) (indices ! k)))
       \<and> (\<exists>A. FromSliceFloat64 (map f64_of_int [1, 2, 3, 4]) [2, 2] = Inr A \<and>
              GetFloat64 A [- 1, - 1] = Inr (f64_of_int 4) \<and>
              GetFloat64 A [- 2, - 2] = Inr (f64_of_int 1))"
proof (intro conjI)
  show "if \<forall>k<length indices. spec_in_bounds (shape a ! k) (indices ! k)
          then flatIndex a indices =
            Inr (\<Sum>k<length indices. spec_normalize (shape a ! k) (indices ! k) * strides a ! k)
          else \<exists>k<length indices. \<not> spec_in_bounds (shape a ! k) (indices ! k) \<and>
            (\<forall>j<k. spec_in_bounds (shape a ! j) (indices ! j)) \<and>
            flatIndex a indices =
              Inl (IndexError (spec_normalize (shape a ! k) (indices ! k)) k (shape a ! k))"
    by (rule flatIndex_normalized[OF assms])
  show "(\<exists>i k n. GetFloat64 a indices = Inl (IndexError i k n)) \<longleftrightarrow>
        (\<exists>k<length indices. \<not> spec_in_bounds (shape a ! k) (indices ! k))"
    unfolding GetFloat64_IndexError_iff by (rule flatIndex_IndexError_iff[OF assms])
  show "(\<exists>i k n. GetInt64 a indices = Inl (IndexError i k n)) \<longleftrightarrow>
        (\<exists>k<length indices. \<not> spec_in_bounds (shape a ! k) (indices ! k))"
    unfolding GetInt64_IndexError_iff by (rule flatIndex_IndexError_iff[OF assms])
  show "(\<exists>i k n. SetFloat64 a v indices = Inl (IndexError i k n)) \<longleftrightarrow>
        (\<exists>k<length indices. \<not> spec_in_bounds (shape a ! k) (indices ! k))"
    unfolding SetFloat64_IndexError_iff by (rule flatIndex_IndexError_iff[OF assms])
  show "(\<exists>i k n. SetInt64 a w indices = Inl (IndexError i k n)) \<longleftrightarrow>
        (\<exists>k<length indices. \<not> spec_in_bounds (shape a ! k) (indices ! k))"
    unfolding SetInt64_IndexError_iff by (rule flatIndex_IndexError_iff[OF assms])
  show "\<exists>A. FromSliceFloat64 (map f64_of_int [1, 2, 3, 4]) [2, 2] = Inr A \<and>
              GetFloat64 A [- 1, - 1] = Inr (f64_of_int 4) \<and>
              GetFloat64 A [- 2, - 2] = Inr (f64_of_int 1)"
    unfolding FromSliceFloat64_2x2 using GetFloat64_2x2_negative by blast
qed

theorem element_access_normalizes_indices_witness:
  "flatIndex \<lparr>data = replicate 32 0, shape = [2, 2], strides = [16, 8], dtype = Float64,
              size' = 4, ndim = 2\<rparr> [- 1, 0] = Inr 16
   \<and> (\<exists>i k n. GetFloat64 \<lparr>data = replicate 32 0, shape = [2, 2], strides = [16, 8],
                   dtype = Float64, size' = 4, ndim = 2\<rparr> [1, - 3] = Inl (IndexError i k n))"
  using element_access_normalizes_indices
          [of "\<lparr>data = replicate 32 0, shape = [2, 2], strides = [16, 8], dtype = Float64,
                 size' = 4, ndim = 2\<rparr>" "[- 1, 0]"]
        element_access_normalizes_indices
          [of "\<lparr>data = replicate 32 0, shape = [2, 2], strides = [16, 8], dtype = Float64,
                 size' = 4, ndim = 2\<rparr>" "[1, - 3]"]
  by (simp add: spec_in_bounds_def spec_normalize_def All_less_Suc Ex_less_Suc
      numeral_2_eq_2 lessThan_Suc)

section \<open>Properties of creation\<close>

lemma fold_mult_prod_list:
  "fold (\<lambda>dim sz. sz * dim) shp (acc :: int) = acc * prod_list shp"
  by (induction shp arbitrary: acc) (simp_all add: mult.assoc)

lemma computeSize_prod_list:
  "computeSize shp = (if shp = [] then 0 else prod_list shp)"
  by (simp add: computeSize_def fold_mult_prod_list)

lemma prod_list_nonneg:
  "\<forall>d\<in>set shp. 0 \<le> d \<Longrightarrow> 0 \<le> (prod_list shp :: int)"
  by (induction shp) simp_all

lemma computeSize_nonneg:
  "\<forall>d\<in>set shp. 0 \<le> d \<Longrightarrow> 0 \<le> computeSize shp"
  by (simp add: computeSize_prod_list prod_list_nonneg)






section \<open>Properties of Reshape\<close>








section \<open>The Float64 view of the byte buffer\<close>

lemma le_word_Cons: "le_word (b # bs) = ucast b OR push_bit 8 (le_word bs)"
  by (simp add: le_word_def)

lemma le_word_le_bytes: "(le_word (le_bytes n w) :: 'a::len word) = take_bit (8 * n) w"
proof (induction n arbitrary: w)
  case 0
  then show ?case by (simp add: le_word_def)
next
  case (Suc n)
  have "(le_word (le_bytes (Suc n) w) :: 'a word) = ucast (ucast w :: 8 word) OR push_bit 8 (take_bit (8 * n) (drop_bit 8 w))"
    by (simp add: le_word_Cons Suc)
  also have "\<dots> = take_bit (8 * Suc n) w"
    by (rule bit_word_eqI) (auto simp: bit_simps)
  finally show ?case .
qed

lemma le_word_le_bytes_64: "le_word (le_bytes 8 w) = (w :: 64 word)"
  by (simp add: le_word_le_bytes take_bit_word_eq_self)

lemma length_le_bytes: "length (le_bytes n w) = n"
  by (induction n arbitrary: w) simp_all

lemma chunk_nth:
  assumes "\<forall>xs\<in>set xss. length xs = m" "k < length xss"
  shows "take m (drop (k * m) (concat xss)) = xss ! k"
  using assms
proof (induction xss arbitrary: k)
  case Nil
  then show ?case by simp
next
  case (Cons xs xss)
  show ?case
  proof (cases k)
    case 0
    with Cons.prems show ?thesis by simp
  next
    case (Suc k')
    with Cons.prems have "take m (drop (k' * m) (concat xss)) = xss ! k'"
      by (intro Cons.IH) simp_all
    with Suc Cons.prems show ?thesis by simp
  qed
qed

lemma chunk_update:
  assumes "\<forall>xs\<in>set xss. length xs = m" "k < length xss" "length ys = m"
  shows "take (k * m) (concat xss) @ ys @ drop (k * m + m) (concat xss) = concat (xss[k := ys])"
  using assms
proof (induction xss arbitrary: k)
  case Nil
  then show ?case by simp
next
  case (Cons xs xss)
  show ?case
  proof (cases k)
    case 0
    with Cons.prems show ?thesis by simp
  next
    case (Suc k')
    with Cons.prems have "take (k' * m) (concat xss) @ ys @ drop (k' * m + m) (concat xss) = concat (xss[k' := ys])"
      by (intro Cons.IH) simp_all
    with Suc Cons.prems show ?thesis by (simp add: add.commute)
  qed
qed

lemma length_concat_chunks:
  "\<forall>xs\<in>set xss. length xs = m \<Longrightarrow> length (concat xss) = length xss * m"
  by (induction xss) simp_all

lemma fill_elems_prefix:
  assumes "\<forall>e\<in>set elems. length e = m" "length buf = length elems * m" "n \<le> length elems"
  shows "for_loop [0..<n] (\<lambda>i b. store b (int i * int m) (elems ! i)) buf =
           Inr (concat (take n elems) @ drop (n * m) buf)"
  using assms(3)
proof (induction n)
  case 0
  then show ?case by simp
next
  case (Suc n)
  then have n: "n < length elems" by simp
  have l: "length (concat (take n elems)) = n * m"
    using assms(1) n by (subst length_concat_chunks[where m = m]) (auto dest: in_set_takeD)
  have en: "length (elems ! n) = m"
    using assms(1) n by simp
  have "n * m + m \<le> length elems * m"
    using n by (metis Suc_leI mult_Suc mult_le_mono1 add.commute)
  then have bound: "n * m + m \<le> length buf"
    using assms(2) by simp
  have "store (concat (take n elems) @ drop (n * m) buf) (int n * int m) (elems ! n) =
          Inr (concat (take n elems) @ elems ! n @ drop (Suc n * m) buf)"
    using l en bound
    by (simp add: store_def nat_mult_distrib add.commute flip: of_nat_mult)
  then show ?case
    using Suc n by (simp add: for_loop_snoc take_Suc_conv_app_nth del: upt_Suc)
qed

lemma fill_elems_concat:
  assumes "\<forall>e\<in>set elems. length e = m" "length buf = length elems * m"
  shows "fill_elems m elems buf = Inr (concat elems)"
  using fill_elems_prefix[OF assms le_refl] assms(2) by (simp add: fill_elems_def)

lemma FromSliceFloat64_f64_array:
  assumes "int (length vals) = computeSize shp"
  shows "FromSliceFloat64 vals shp = Inr (f64_array vals shp)"
proof -
  have "fill_elems 8 (map (le_bytes 8) vals) (replicate (nat (computeSize shp * 8)) 0) =
          Inr (concat (map (le_bytes 8) vals))"
    by (rule fill_elems_concat) (auto simp: length_le_bytes assms[symmetric] nat_mult_distrib)
  then show ?thesis
    using assms
    by (simp add: FromSliceFloat64_def make_bytes_def f64_array_def ItemSize_def dtype_defs Let_def)
qed

lemma Zeros_f64_array:
  assumes "0 \<le> computeSize shp"
  shows "Zeros shp Float64 = Inr (f64_array (replicate (nat (computeSize shp)) 0) shp)"
proof -
  have r8: "replicate 8 (0 :: byte) = [0, 0, 0, 0, 0, 0, 0, 0]"
    by (simp add: numeral_eq_Suc)
  have z: "le_bytes 8 (0 :: 64 word) = replicate 8 0"
    unfolding r8 by (simp add: le_bytes_8)
  have "concat (replicate n (replicate m x)) = replicate (n * m) x" for n m and x :: byte
    by (induction n) (simp_all add: replicate_add)
  then have "concat (map (le_bytes 8) (replicate n (0 :: 64 word))) = replicate (n * 8) 0" for n
    by (simp add: z)
  then show ?thesis
    using assms
    by (simp add: Zeros_def make_bytes_def f64_array_def ItemSize_def dtype_defs Let_def
        nat_mult_distrib)
qed

lemma GetFloat64_f64:
  assumes "flatIndex a indices = Inr (8 * int k)" "dtype a = Float64"
    "data a = concat (map (le_bytes 8) vals)" "k < length vals"
  shows "GetFloat64 a indices = Inr (vals ! k)"
proof -
  have len: "length (concat (map (le_bytes 8) vals)) = length vals * 8"
    by (subst length_concat_chunks[where m = 8]) (auto simp: length_le_bytes)
  have "take 8 (drop (k * 8) (concat (map (le_bytes 8) vals))) = map (le_bytes 8) vals ! k"
    by (rule chunk_nth) (auto simp: length_le_bytes assms(4))
  then have "load (data a) (8 * int k) 8 = Inr (le_bytes 8 (vals ! k))"
    using assms(3,4) len by (simp add: load_def nat_mult_distrib mult.commute)
  then show ?thesis
    using assms(1,2) by (simp add: GetFloat64_def le_word_le_bytes_64)
qed

lemma SetFloat64_f64:
  assumes "flatIndex a indices = Inr (8 * int k)" "dtype a = Float64"
    "data a = concat (map (le_bytes 8) vals)" "k < length vals"
  shows "SetFloat64 a v indices = Inr (a\<lparr>data := concat (map (le_bytes 8) (vals[k := v]))\<rparr>)"
proof -
  have len: "length (concat (map (le_bytes 8) vals)) = length vals * 8"
    by (subst length_concat_chunks[where m = 8]) (auto simp: length_le_bytes)
  have "take (k * 8) (concat (map (le_bytes 8) vals)) @ le_bytes 8 v @
          drop (k * 8 + 8) (concat (map (le_bytes 8) vals)) =
        concat ((map (le_bytes 8) vals)[k := le_bytes 8 v])"
    by (rule chunk_update) (auto simp: length_le_bytes assms(4))
  then have "store (data a) (8 * int k) (le_bytes 8 v) =
               Inr (concat (map (le_bytes 8) (vals[k := v])))"
    using assms(3,4) len
    by (simp add: store_def length_le_bytes nat_mult_distrib mult.commute map_update)
  then show ?thesis
    using assms(1,2) by (simp add: SetFloat64_def put_def)
qed

lemma computeStrides_2d: "computeStrides [r, c] it = [it * c, it]"
  by (simp add: computeStrides_def make_ints_def numeral_2_eq_2)

lemma computeSize_2d: "computeSize [r, c] = r * c"
  by (simp add: computeSize_def)

lemma flatIndex_2d:
  assumes "shape a = [r, c]" "strides a = [it * c, it]" "ndim a = 2"
    "0 \<le> i" "i < r" "0 \<le> j" "j < c"
  shows "flatIndex a [i, j] = Inr (it * (i * c + j))"
  using assms by (simp add: flatIndex_def Let_def algebra_simps)

lemma f64_array_2d_Get:
  assumes "i < r" "j < c" "length vals = r * c"
  shows "GetFloat64 (f64_array vals [int r, int c]) [int i, int j] = Inr (vals ! (i * c + j))"
proof -
  have "flatIndex (f64_array vals [int r, int c]) [int i, int j] =
          Inr (8 * (int i * int c + int j))"
    using assms
    by (intro flatIndex_2d[where r = "int r"]) (simp_all add: f64_array_def computeStrides_2d)
  then have fi: "flatIndex (f64_array vals [int r, int c]) [int i, int j] = Inr (8 * int (i * c + j))"
    by simp
  have "i * c + j < r * c"
  proof -
    have "i * c + j < i * c + c" using assms(2) by simp
    also have "\<dots> = Suc i * c" by simp
    also have "\<dots> \<le> r * c" using assms(1) by (intro mult_le_mono1) simp
    finally show ?thesis .
  qed
  then show ?thesis
    by (intro GetFloat64_f64[OF fi]) (simp_all add: f64_array_def assms(3))
qed

lemma f64_array_2d_Set:
  assumes "i < r" "j < c" "length vals = r * c"
  shows "SetFloat64 (f64_array vals [int r, int c]) v [int i, int j] =
           Inr (f64_array (vals[i * c + j := v]) [int r, int c])"
proof -
  have "flatIndex (f64_array vals [int r, int c]) [int i, int j] =
          Inr (8 * (int i * int c + int j))"
    using assms
    by (intro flatIndex_2d[where r = "int r"]) (simp_all add: f64_array_def computeStrides_2d)
  then have fi: "flatIndex (f64_array vals [int r, int c]) [int i, int j] = Inr (8 * int (i * c + j))"
    by simp
  have "i * c + j < r * c"
  proof -
    have "i * c + j < i * c + c" using assms(2) by simp
    also have "\<dots> = Suc i * c" by simp
    also have "\<dots> \<le> r * c" using assms(1) by (intro mult_le_mono1) simp
    finally show ?thesis .
  qed
  then have "SetFloat64 (f64_array vals [int r, int c]) v [int i, int j] =
      Inr ((f64_array vals [int r, int c])\<lparr>data := concat (map (le_bytes 8) (vals[i * c + j := v]))\<rparr>)"
    by (intro SetFloat64_f64[OF fi]) (simp_all add: f64_array_def assms(3))
  then show ?thesis
    by (simp add: f64_array_def)
qed

section \<open>Properties of the determinant\<close>

lemma for_loop_Inr:
  assumes "\<And>i s. i \<in> set xs \<Longrightarrow> body i s = Inr (f s i)"
  shows "for_loop xs body s = Inr (foldl f s xs)"
  using assms by (induction xs arbitrary: s) simp_all

lemma filter_neq_upt:
  "c < n \<Longrightarrow> filter (\<lambda>j. j \<noteq> c) [0..<n] = [0..<c] @ [Suc c..<n]"
proof -
  assume c: "c < n"
  then have "[0..<n] = [0..<c] @ c # [Suc c..<n]"
    by (metis le0 less_imp_le_nat upt_add_eq_append upt_conv_Cons le_add_diff_inverse plus_nat.add_0)
  moreover have "filter (\<lambda>j. j \<noteq> c) [0..<c] = [0..<c]"
    by (rule filter_True) auto
  moreover have "filter (\<lambda>j. j \<noteq> c) [Suc c..<n] = [Suc c..<n]"
    by (rule filter_True) auto
  ultimately show ?thesis by simp
qed

lemma filter_neq_upt_nth:
  assumes "c < n" "j < n - 1"
  shows "filter (\<lambda>j. j \<noteq> c) [0..<n] ! j = (if j < c then j else Suc j)"
  using assms by (auto simp: filter_neq_upt nth_append)

lemma filter_neq_upt_length:
  "c < n \<Longrightarrow> length (filter (\<lambda>j. j \<noteq> c) [0..<n]) = n - 1"
  by (simp add: filter_neq_upt)

lemma concat_nth_chunks:
  assumes "\<forall>xs\<in>set xss. length xs = m" "i < length xss" "j < m"
  shows "concat xss ! (i * m + j) = xss ! i ! j"
  using assms
proof (induction xss arbitrary: i)
  case Nil
  then show ?case by simp
next
  case (Cons xs xss)
  show ?case
  proof (cases i)
    case 0
    with Cons.prems show ?thesis by (simp add: nth_append)
  next
    case (Suc i')
    with Cons.prems have "concat xss ! (i' * m + j) = xss ! i' ! j"
      by (intro Cons.IH) simp_all
    with Suc Cons.prems show ?thesis by (simp add: nth_append)
  qed
qed

lemma getMinor_inner:
  assumes "\<forall>j<m. GetFloat64 a [int i, int j] = Inr (A i j)"
  shows "for_loop [0..<m]
           (\<lambda>j vals.
              if int j = col then Inr vals
              else case GetFloat64 a [int i, int j] of
                     Inl e \<Rightarrow> Inl e
                   | Inr v \<Rightarrow> Inr (vals @ [v]))
           vals0 = Inr (vals0 @ map (A i) (filter (\<lambda>j. int j \<noteq> col) [0..<m]))"
  using assms
proof (induction m)
  case 0
  then show ?case by simp
next
  case (Suc m)
  then show ?case
    by (simp add: for_loop_snoc del: upt_Suc) simp
qed

lemma getMinor_outer:
  assumes "\<forall>i<m. \<forall>j<n. GetFloat64 a [int i, int j] = Inr (A i j)"
  shows "for_loop [0..<m]
           (\<lambda>i vals.
              if int i = row then Inr vals
              else for_loop [0..<n]
                     (\<lambda>j vals.
                        if int j = col then Inr vals
                        else case GetFloat64 a [int i, int j] of
                               Inl e \<Rightarrow> Inl e
                             | Inr v \<Rightarrow> Inr (vals @ [v]))
                     vals)
           vals0 =
         Inr (vals0 @ concat (map (\<lambda>i. map (A i) (filter (\<lambda>j. int j \<noteq> col) [0..<n]))
                                (filter (\<lambda>i. int i \<noteq> row) [0..<m])))"
  using assms
proof (induction m arbitrary: vals0)
  case 0
  then show ?case by simp
next
  case (Suc m)
  let ?B = "(\<lambda>i vals.
              if int i = row then Inr vals
              else for_loop [0..<n]
                     (\<lambda>j vals.
                        if int j = col then Inr vals
                        else case GetFloat64 a [int i, int j] of
                               Inl e \<Rightarrow> Inl e
                             | Inr v \<Rightarrow> Inr (vals @ [v]))
                     vals)"
  have IH: "for_loop [0..<m] ?B vals0 =
      Inr (vals0 @ concat (map (\<lambda>i. map (A i) (filter (\<lambda>j. int j \<noteq> col) [0..<n]))
                                (filter (\<lambda>i. int i \<noteq> row) [0..<m])))"
    using Suc by simp
  have step: "?B m v0 =
      Inr (v0 @ (if int m = row then [] else map (A m) (filter (\<lambda>j. int j \<noteq> col) [0..<n])))" for v0
  proof (cases "int m = row")
    case True
    then show ?thesis by simp
  next
    case False
    have "for_loop [0..<n]
           (\<lambda>j vals.
              if int j = col then Inr vals
              else case GetFloat64 a [int m, int j] of
                     Inl e \<Rightarrow> Inl e
                   | Inr v \<Rightarrow> Inr (vals @ [v]))
           v0 = Inr (v0 @ map (A m) (filter (\<lambda>j. int j \<noteq> col) [0..<n]))"
      using Suc.prems by (intro getMinor_inner) simp
    with False show ?thesis by simp
  qed
  show ?case
    unfolding for_loop_snoc IH by (simp add: step del: upt_Suc) simp
qed

lemma getMinor_f64_array:
  assumes "shape a = [int n, int n]" "c < n" "0 < n"
    "\<forall>i<n. \<forall>j<n. GetFloat64 a [int i, int j] = Inr (A i j)"
  shows "getMinor a 0 (int c) =
           Inr (f64_array (concat (map (\<lambda>i. map (A i) (filter (\<lambda>j. j \<noteq> c) [0..<n])) [1..<n]))
                  [int (n - 1), int (n - 1)])"
proof -
  let ?vals = "concat (map (\<lambda>i. map (A i) (filter (\<lambda>j. int j \<noteq> int c) [0..<n]))
                                (filter (\<lambda>i. int i \<noteq> 0) [0..<n]))"
  have loop: "for_loop [0..<n]
           (\<lambda>i vals.
              if int i = 0 then Inr vals
              else for_loop [0..<n]
                     (\<lambda>j vals.
                        if int j = int c then Inr vals
                        else case GetFloat64 a [int i, int j] of
                               Inl e \<Rightarrow> Inl e
                             | Inr v \<Rightarrow> Inr (vals @ [v]))
                     vals)
           [] = Inr ([] @ ?vals)"
    by (rule getMinor_outer) (use assms(4) in simp)
  have "filter (\<lambda>i. int i \<noteq> 0) [0..<n] = filter (\<lambda>i. i \<noteq> 0) [0..<n]"
    by (rule filter_cong) auto
  also have "\<dots> = [1..<n]"
    using filter_neq_upt[of 0 n] assms(3) by simp
  finally have f0: "filter (\<lambda>i. int i \<noteq> 0) [0..<n] = [1..<n]" .
  have vals: "?vals = concat (map (\<lambda>i. map (A i) (filter (\<lambda>j. j \<noteq> c) [0..<n])) [1..<n])"
    unfolding f0 by simp
  have "length ?vals = (n - 1) * (n - 1)"
    unfolding vals
    by (subst length_concat_chunks[where m = "n - 1"])
       (auto simp: filter_neq_upt_length assms(2))
  then have len: "int (length ?vals) = computeSize [int n - 1, int n - 1]"
    using assms(3) by (simp add: computeSize_2d of_nat_diff)
  have sh: "length (shape a) \<noteq> 0" "nat (shape a ! 0) = n" "shape a ! 0 = int n"
    by (simp_all add: assms(1))
  have "getMinor a 0 (int c) =
     (case for_loop [0..<n]
           (\<lambda>i vals.
              if int i = 0 then Inr vals
              else for_loop [0..<n]
                     (\<lambda>j vals.
                        if int j = int c then Inr vals
                        else case GetFloat64 a [int i, int j] of
                               Inl e \<Rightarrow> Inl e
                             | Inr v \<Rightarrow> Inr (vals @ [v]))
                     vals)
           [] of Inl e \<Rightarrow> Inl e | Inr vals \<Rightarrow> FromSliceFloat64 vals [int n - 1, int n - 1])"
    unfolding getMinor_def Let_def sh(3) nat_int using sh(1) by (simp only: if_False)
  also have "\<dots> = FromSliceFloat64 ?vals [int n - 1, int n - 1]"
    unfolding loop by simp
  also have "\<dots> = Inr (f64_array ?vals [int n - 1, int n - 1])"
    by (rule FromSliceFloat64_f64_array[OF len])
  finally show ?thesis
    unfolding vals using assms(3) by (simp add: of_nat_diff)
qed


lemma minor_entries:
  assumes "c < n" "i < n - 1" "j < n - 1"
  shows "GetFloat64 (f64_array (concat (map (\<lambda>i. map (A i) (filter (\<lambda>j. j \<noteq> c) [0..<n])) [1..<n]))
            [int (n - 1), int (n - 1)]) [int i, int j] = Inr (spec_minor A c i j)"
proof -
  let ?rows = "map (\<lambda>i. map (A i) (filter (\<lambda>j. j \<noteq> c) [0..<n])) [1..<n]"
  have rows: "\<forall>xs\<in>set ?rows. length xs = n - 1"
    by (auto simp: filter_neq_upt_length assms(1))
  have len: "length (concat ?rows) = (n - 1) * (n - 1)"
    by (subst length_concat_chunks[OF rows]) simp
  have "GetFloat64 (f64_array (concat ?rows) [int (n - 1), int (n - 1)]) [int i, int j] =
          Inr (concat ?rows ! (i * (n - 1) + j))"
    by (rule f64_array_2d_Get[OF assms(2,3) len])
  also have "concat ?rows ! (i * (n - 1) + j) = ?rows ! i ! j"
    by (rule concat_nth_chunks[OF rows]) (use assms in simp_all)
  also have "?rows ! i ! j = A (Suc i) (filter (\<lambda>j. j \<noteq> c) [0..<n] ! j)"
    using assms by (simp add: filter_neq_upt_length)
  also have "\<dots> = spec_minor A c i j"
    using assms by (simp add: filter_neq_upt_nth spec_minor_def)
  finally show ?thesis .
qed

lemma f64_array_fields:
  "ndim (f64_array vals shp) = int (length shp)" "shape (f64_array vals shp) = shp"
  "dtype (f64_array vals shp) = Float64"
  by (simp_all add: f64_array_def)

lemma Det_spec_det:
  assumes "ndim a = 2" "shape a = [int n, int n]"
    "\<forall>i<n. \<forall>j<n. GetFloat64 a [int i, int j] = Inr (A i j)"
  shows "Det a = Inr (spec_det n A)"
  using assms
proof (induction n arbitrary: a A)
  case 0
  then show ?case
    by (subst Det.simps) simp
next
  case (Suc m)
  show ?case
  proof (cases "m = 0 \<or> m = 1")
    case True
    then show ?thesis
    proof
      assume "m = 0"
      with Suc.prems show ?thesis
        by (subst Det.simps) simp
    next
      assume m: "m = 1"
      with Suc.prems(3) have g: "GetFloat64 a [0, 0] = Inr (A 0 0)" "GetFloat64 a [1, 1] = Inr (A 1 1)"
        "GetFloat64 a [0, 1] = Inr (A 0 1)" "GetFloat64 a [1, 0] = Inr (A 1 0)"
        using Suc.prems(3)[rule_format, of 0 0] Suc.prems(3)[rule_format, of 1 1]
          Suc.prems(3)[rule_format, of 0 1] Suc.prems(3)[rule_format, of 1 0]
        by simp_all
      show ?thesis
        using Suc.prems(1,2) m by (subst Det.simps) (simp add: g)
    qed
  next
    case False
    then have m: "2 \<le> m" by arith
    let ?n = "Suc m"
    let ?f = "(\<lambda>det j.
                    if even j then f64_add det (f64_mul (A 0 j) (spec_det m (spec_minor A j)))
                    else f64_sub det (f64_mul (A 0 j) (spec_det m (spec_minor A j))))"
    let ?body = "(\<lambda>j det.
                  case getMinor a 0 (int j) of Inl e \<Rightarrow> Inl e | Inr minor \<Rightarrow>
                  case GetFloat64 a [0, int j] of Inl e \<Rightarrow> Inl e | Inr a0j \<Rightarrow>
                  case Det minor of Inl e \<Rightarrow> Inl e | Inr d \<Rightarrow>
                    let cofactor = f64_mul a0j d in
                    if j mod 2 = 0 then Inr (f64_add det cofactor)
                    else Inr (f64_sub det cofactor))"
    have step: "?body j det = Inr (?f det j)" if j: "j \<in> set [0..<?n]" for j det
    proof -
      from j have jn: "j < ?n" by auto
      define minor where "minor = f64_array
          (concat (map (\<lambda>i. map (A i) (filter (\<lambda>k. k \<noteq> j) [0..<?n])) [1..<?n]))
          [int (?n - 1), int (?n - 1)]"
      have gm: "getMinor a 0 (int j) = Inr minor"
        unfolding minor_def by (rule getMinor_f64_array[OF Suc.prems(2) jn _ Suc.prems(3)]) simp
      have ent: "\<forall>i<m. \<forall>k<m. GetFloat64 minor [int i, int k] = Inr (spec_minor A j i k)"
        unfolding minor_def using minor_entries[OF jn, of _ _ A] by simp
      have dm: "Det minor = Inr (spec_det m (spec_minor A j))"
        by (rule Suc.IH[OF _ _ ent]) (simp_all add: minor_def f64_array_fields)
      have g0: "GetFloat64 a [0, int j] = Inr (A 0 j)"
        using Suc.prems(3)[rule_format, of 0 j] jn by simp
      show ?thesis
        by (simp add: gm g0 dm Let_def even_iff_mod_2_eq_zero)
    qed
    have nn: "nat (1 + int m) = Suc m"
      by arith
    have "Det a = for_loop [0..<?n] ?body 0"
      using Suc.prems(1,2) m by (subst Det.simps) (simp add: Let_def nn del: upt_Suc)
    also have "\<dots> = Inr (foldl ?f 0 [0..<?n])"
      by (rule for_loop_Inr) (rule step)
    also have "foldl ?f 0 [0..<?n] = spec_det ?n A"
      using m by (simp del: upt_Suc)
    finally show ?thesis .
  qed
qed

subsection \<open>The 3 by 3 example\<close>

lemmas f64_arith =
  f64_add_def f64_sub_def f64_mul_def f64_of_int_def f64_round_def ieee_round_def
  round_half_even_def nbits_def f64_isNaN_def f64_isInf_def f64_field_def f64_frac_def
  f64_neg_def f64_mant_def f64_exp_def f64_smant_def f64_zero_def f64_negate_def
  f64_quiet_def f64_inf_def compute_floorlog Let_def

lemma f64_of_int_0: "f64_of_int 0 = 0"
  by (simp add: f64_arith)

lemma det_example_minors:
  "f64_mul (f64_of_int 1) 0 = 0"
  "f64_mul (f64_of_int 4) (f64_of_int 6) = f64_of_int 24"
  "f64_sub 0 (f64_of_int 24) = f64_of_int (- 24)"
  "f64_mul 0 0 = 0"
  "f64_mul (f64_of_int 4) (f64_of_int 5) = f64_of_int 20"
  "f64_sub 0 (f64_of_int 20) = f64_of_int (- 20)"
  "f64_mul 0 (f64_of_int 6) = 0"
  "f64_mul (f64_of_int 1) (f64_of_int 5) = f64_of_int 5"
  "f64_sub 0 (f64_of_int 5) = f64_of_int (- 5)"
  by (simp_all add: f64_arith)

lemma det_example_row:
  "f64_mul (f64_of_int 1) (f64_of_int (- 24)) = f64_of_int (- 24)"
  "f64_add 0 (f64_of_int (- 24)) = f64_of_int (- 24)"
  "f64_mul (f64_of_int 2) (f64_of_int (- 20)) = f64_of_int (- 40)"
  "f64_sub (f64_of_int (- 24)) (f64_of_int (- 40)) = f64_of_int 16"
  "f64_mul (f64_of_int 3) (f64_of_int (- 5)) = f64_of_int (- 15)"
  "f64_add (f64_of_int 16) (f64_of_int (- 15)) = f64_of_int 1"
  by (simp_all add: f64_arith)

lemma spec_det_3x3_example:
  "spec_det 3 (\<lambda>i j. map f64_of_int [1, 2, 3, 0, 1, 4, 5, 6, 0] ! (i * 3 + j)) = f64_of_int 1"
  by (simp add: numeral_3_eq_3 spec_minor_def f64_of_int_0 det_example_minors det_example_row)

lemma Det_3x3_example:
  "Det (f64_array (map f64_of_int [1, 2, 3, 0, 1, 4, 5, 6, 0]) [3, 3]) = Inr (f64_of_int 1)"
proof -
  let ?vals = "map f64_of_int [1, 2, 3, 0, 1, 4, 5, 6, 0]"
  let ?A = "\<lambda>i j. ?vals ! (i * 3 + j)"
  have sh: "[3, 3] = [int 3, int 3]"
    by simp
  have ent: "\<forall>i<3. \<forall>j<3.
      GetFloat64 (f64_array ?vals [int 3, int 3]) [int i, int j] = Inr (?A i j)"
    by (intro allI impI f64_array_2d_Get) simp_all
  have "Det (f64_array ?vals [int 3, int 3]) = Inr (spec_det 3 ?A)"
    by (rule Det_spec_det[OF _ _ ent]) (simp_all add: f64_array_fields)
  then show ?thesis
    unfolding sh spec_det_3x3_example .
qed

text \<open>
  Claim C5.  For a square 2-D matrix of size \<open>n\<close> with entries \<open>A i j\<close> (the values that
  \<open>GetFloat64\<close> reads), \<open>Det\<close> returns \<open>A 0 0\<close> for \<open>n = 1\<close>, \<open>A 0 0 * A 1 1 - A 0 1 * A 1 0\<close>
  for \<open>n = 2\<close>, and for \<open>n \<ge> 3\<close> the cofactor expansion along row 0: starting from 0, the
  term \<open>A 0 j\<close> times \<open>Det\<close> of the minor without row 0 and column \<open>j\<close> is added for even
  \<open>j\<close> and subtracted for odd \<open>j\<close>.  The determinant of [[1,2,3],[0,1,4],[5,6,0]] is 1.
\<close>

theorem Det_cofactor_expansion:
  assumes "ndim a = 2" and "shape a = [int n, int n]"
    and "\<forall>i<n. \<forall>j<n. GetFloat64 a [int i, int j] = Inr (A i j)"
  shows "Det a = Inr (spec_det n A)
       \<and> (n = 1 \<longrightarrow> Det a = Inr (A 0 0))
       \<and> (n = 2 \<longrightarrow> Det a = Inr (f64_sub (f64_mul (A 0 0) (A 1 1)) (f64_mul (A 0 1) (A 1 0))))
       \<and> (3 \<le> n \<longrightarrow>
            (\<forall>j<n. \<exists>minor. getMinor a 0 (int j) = Inr minor \<and>
                 shape minor = [int (n - 1), int (n - 1)] \<and>
                 (\<forall>i<n - 1. \<forall>k<n - 1.
                    GetFloat64 minor [int i, int k] = Inr (A (Suc i) (if k < j then k else Suc k))) \<and>
                 Det minor = Inr (spec_det (n - 1) (spec_minor A j))) \<and>
            Det a = Inr (foldl (\<lambda>det j.
                    if even j
                    then f64_add det (f64_mul (A 0 j) (spec_det (n - 1) (spec_minor A j)))
                    else f64_sub det (f64_mul (A 0 j) (spec_det (n - 1) (spec_minor A j))))
                  0 [0..<n]))
       \<and> (\<exists>M. FromSliceFloat64 (map f64_of_int [1, 2, 3, 0, 1, 4, 5, 6, 0]) [3, 3] = Inr M \<and>
              Det M = Inr (f64_of_int 1))"
proof (intro conjI impI)
  show d: "Det a = Inr (spec_det n A)"
    by (rule Det_spec_det[OF assms])
  show "Det a = Inr (A 0 0)" if "n = 1"
    using d that by simp
  show "Det a = Inr (f64_sub (f64_mul (A 0 0) (A 1 1)) (f64_mul (A 0 1) (A 1 0)))" if "n = 2"
    using d that by (simp add: numeral_2_eq_2)
  show "\<forall>j<n. \<exists>minor. getMinor a 0 (int j) = Inr minor \<and>
                 shape minor = [int (n - 1), int (n - 1)] \<and>
                 (\<forall>i<n - 1. \<forall>k<n - 1.
                    GetFloat64 minor [int i, int k] = Inr (A (Suc i) (if k < j then k else Suc k))) \<and>
                 Det minor = Inr (spec_det (n - 1) (spec_minor A j))" if n: "3 \<le> n"
  proof (intro allI impI)
    fix j
    assume j: "j < n"
    define minor where "minor = f64_array
        (concat (map (\<lambda>i. map (A i) (filter (\<lambda>k. k \<noteq> j) [0..<n])) [1..<n]))
        [int (n - 1), int (n - 1)]"
    have gm: "getMinor a 0 (int j) = Inr minor"
      unfolding minor_def by (rule getMinor_f64_array[OF assms(2) j _ assms(3)]) (use n in simp)
    have ent: "\<forall>i<n - 1. \<forall>k<n - 1. GetFloat64 minor [int i, int k] = Inr (spec_minor A j i k)"
      unfolding minor_def using minor_entries[OF j, of _ _ A] by simp
    have "Det minor = Inr (spec_det (n - 1) (spec_minor A j))"
      by (rule Det_spec_det[OF _ _ ent]) (simp_all add: minor_def f64_array_fields)
    moreover have "shape minor = [int (n - 1), int (n - 1)]"
      by (simp add: minor_def f64_array_fields)
    ultimately show "\<exists>minor. getMinor a 0 (int j) = Inr minor \<and>
                 shape minor = [int (n - 1), int (n - 1)] \<and>
                 (\<forall>i<n - 1. \<forall>k<n - 1.
                    GetFloat64 minor [int i, int k] = Inr (A (Suc i) (if k < j then k else Suc k))) \<and>
                 Det minor = Inr (spec_det (n - 1) (spec_minor A j))"
      using gm ent by (auto simp: spec_minor_def)
  qed
  show "Det a = Inr (foldl (\<lambda>det j.
                    if even j
                    then f64_add det (f64_mul (A 0 j) (spec_det (n - 1) (spec_minor A j)))
                    else f64_sub det (f64_mul (A 0 j) (spec_det (n - 1) (spec_minor A j))))
                  0 [0..<n])" if n: "3 \<le> n"
  proof -
    from n obtain m where m: "n = Suc m" "2 \<le> m"
      by (cases n) auto
    show ?thesis
      unfolding d m(1) diff_Suc_1 using m(2) by (simp del: upt_Suc)
  qed
  show "\<exists>M. FromSliceFloat64 (map f64_of_int [1, 2, 3, 0, 1, 4, 5, 6, 0]) [3, 3] = Inr M \<and>
              Det M = Inr (f64_of_int 1)"
  proof -
    have "FromSliceFloat64 (map f64_of_int [1, 2, 3, 0, 1, 4, 5, 6, 0]) [3, 3] =
            Inr (f64_array (map f64_of_int [1, 2, 3, 0, 1, 4, 5, 6, 0]) [3, 3])"
      by (rule FromSliceFloat64_f64_array) (simp add: computeSize_2d)
    then show ?thesis
      using Det_3x3_example by blast
  qed
qed

theorem Det_cofactor_expansion_witness:
  "Det (f64_array (map f64_of_int [3, 5, 2, 4]) [2, 2]) =
     Inr (f64_sub (f64_mul (f64_of_int 3) (f64_of_int 4)) (f64_mul (f64_of_int 5) (f64_of_int 2)))"
proof -
  let ?vals = "map f64_of_int [3, 5, 2, 4]"
  let ?A = "\<lambda>i j. ?vals ! (i * 2 + j)"
  have h1: "ndim (f64_array ?vals [2, 2]) = 2"
    by (simp add: f64_array_fields)
  have h2: "shape (f64_array ?vals [2, 2]) = [int 2, int 2]"
    by (simp add: f64_array_fields)
  have h3: "\<forall>i<2. \<forall>j<2. GetFloat64 (f64_array ?vals [2, 2]) [int i, int j] = Inr (?A i j)"
    using f64_array_2d_Get[of _ 2 _ 2 ?vals] by simp
  from Det_cofactor_expansion[OF h1 h2 h3] have
    "2 = (2::nat) \<longrightarrow> Det (f64_array ?vals [2, 2]) =
       Inr (f64_sub (f64_mul (?A 0 0) (?A 1 1)) (f64_mul (?A 0 1) (?A 1 0)))"
    by blast
  then show ?thesis
    by simp
qed

section \<open>Properties of matrix inversion\<close>

lemma length_mat_list: "length (mat_list r c M) = r * c"
  by (simp add: mat_list_def)

lemma index_in_range:
  assumes "i < r" "j < (c::nat)"
  shows "i * c + j < r * c"
proof -
  have "i * c + j < i * c + c" using assms(2) by simp
  also have "\<dots> = Suc i * c" by simp
  also have "\<dots> \<le> r * c" using assms(1) by (intro mult_le_mono1) simp
  finally show ?thesis .
qed

lemma mat_list_nth:
  assumes "i < r" "j < c"
  shows "mat_list r c M ! (i * c + j) = M i j"
  using index_in_range[OF assms] assms(2) by (simp add: mat_list_def)

lemma mat_list_cong:
  assumes "\<And>i j. i < r \<Longrightarrow> j < c \<Longrightarrow> M i j = M' i j"
  shows "mat_list r c M = mat_list r c M'"
proof -
  have "M (k div c) (k mod c) = M' (k div c) (k mod c)" if "k < r * c" for k
  proof -
    from that have c: "0 < c" by (cases c) auto
    have "k div c < r" using that c by (simp add: less_mult_imp_div_less)
    moreover have "k mod c < c" using c by simp
    ultimately show ?thesis by (rule assms)
  qed
  then show ?thesis by (simp add: mat_list_def)
qed

lemma mat_list_update:
  assumes "i < r" "j < c"
  shows "(mat_list r c M)[i * c + j := v] =
           mat_list r c (\<lambda>r' c'. if r' = i \<and> c' = j then v else M r' c')"
proof (rule nth_equalityI)
  show "length ((mat_list r c M)[i * c + j := v]) =
        length (mat_list r c (\<lambda>r' c'. if r' = i \<and> c' = j then v else M r' c'))"
    by (simp add: length_mat_list)
next
  fix k
  assume "k < length ((mat_list r c M)[i * c + j := v])"
  then have k: "k < r * c" by (simp add: length_mat_list)
  have "(k div c = i \<and> k mod c = j) \<longleftrightarrow> k = i * c + j"
    using assms(2) by (auto simp: mult.commute)
  then show "(mat_list r c M)[i * c + j := v] ! k =
        mat_list r c (\<lambda>r' c'. if r' = i \<and> c' = j then v else M r' c') ! k"
    using k by (auto simp: mat_list_def nth_list_update)
qed

lemma mat_Get:
  assumes "i < r" "j < c"
  shows "GetFloat64 (f64_array (mat_list r c M) [int r, int c]) [int i, int j] = Inr (M i j)"
  using f64_array_2d_Get[OF assms length_mat_list] mat_list_nth[OF assms] by simp

lemma mat_Set:
  assumes "i < r" "j < c"
  shows "SetFloat64 (f64_array (mat_list r c M) [int r, int c]) v [int i, int j] =
           Inr (f64_array (mat_list r c (\<lambda>r' c'. if r' = i \<and> c' = j then v else M r' c'))
                  [int r, int c])"
  using f64_array_2d_Set[OF assms length_mat_list] mat_list_update[OF assms] by simp

lemma mat_list_zero: "mat_list r c (\<lambda>_ _. 0) = replicate (r * c) 0"
  by (simp add: mat_list_def map_replicate_const)


lemma row_loop:
  assumes "k < nr" "m \<le> w"
    and body: "\<And>j. j < m \<Longrightarrow>
       body j (f64_array (mat_list nr w (\<lambda>r c. if r = k \<and> c < j then g c else M r c))
                 [int nr, int w]) =
       SetFloat64 (f64_array (mat_list nr w (\<lambda>r c. if r = k \<and> c < j then g c else M r c))
                     [int nr, int w]) (g j) [int k, int j]"
  shows "for_loop [0..<m] body (f64_array (mat_list nr w M) [int nr, int w]) =
           Inr (f64_array (mat_list nr w (\<lambda>r c. if r = k \<and> c < m then g c else M r c))
                  [int nr, int w])"
  using assms(2) body
proof (induction m)
  case 0
  then show ?case by simp
next
  case (Suc m)
  let ?M = "\<lambda>j. (\<lambda>r c. if r = k \<and> c < j then g c else M r c)"
  have IH: "for_loop [0..<m] body (f64_array (mat_list nr w M) [int nr, int w]) =
      Inr (f64_array (mat_list nr w (?M m)) [int nr, int w])"
    using Suc by simp
  have "body m (f64_array (mat_list nr w (?M m)) [int nr, int w]) =
      SetFloat64 (f64_array (mat_list nr w (?M m)) [int nr, int w]) (g m) [int k, int m]"
    using Suc.prems(2)[of m] by simp
  also have "\<dots> = Inr (f64_array (mat_list nr w
      (\<lambda>r' c'. if r' = k \<and> c' = m then g m else ?M m r' c')) [int nr, int w])"
    using Suc.prems(1) by (intro mat_Set assms(1)) simp
  also have "(\<lambda>r' c'. if r' = k \<and> c' = m then g m else ?M m r' c') = ?M (Suc m)"
    by (auto simp: fun_eq_iff less_Suc_eq)
  finally show ?case
    unfolding for_loop_snoc IH by simp
qed

lemma normalize_loop:
  assumes "i < n" "m \<le> w"
  shows "for_loop [0..<m]
           (\<lambda>j aug. case GetFloat64 aug [int i, int j] of
                       Inl e \<Rightarrow> Inl e
                     | Inr v \<Rightarrow> SetFloat64 aug (f64_div v pivot) [int i, int j])
           (f64_array (mat_list n w M) [int n, int w]) =
         Inr (f64_array (mat_list n w
                (\<lambda>r c. if r = i \<and> c < m then f64_div (M i c) pivot else M r c))
                [int n, int w])"
proof (rule row_loop[OF assms])
  fix j
  assume j: "j < m"
  then have "j < w" using assms(2) by simp
  then show "(case GetFloat64 (f64_array (mat_list n w
                (\<lambda>r c. if r = i \<and> c < j then f64_div (M i c) pivot else M r c)) [int n, int w])
              [int i, int j] of
          Inl e \<Rightarrow> Inl e
        | Inr v \<Rightarrow> SetFloat64 (f64_array (mat_list n w
                (\<lambda>r c. if r = i \<and> c < j then f64_div (M i c) pivot else M r c)) [int n, int w])
              (f64_div v pivot) [int i, int j]) =
       SetFloat64 (f64_array (mat_list n w
                (\<lambda>r c. if r = i \<and> c < j then f64_div (M i c) pivot else M r c)) [int n, int w])
              (f64_div (M i j) pivot) [int i, int j]"
    using assms(1) by (simp add: mat_Get)
qed

lemma eliminate_row_loop:
  assumes "k < n" "i < n" "k \<noteq> i" "m \<le> w"
  shows "for_loop [0..<m]
           (\<lambda>j aug.
              case GetFloat64 aug [int k, int j] of Inl e \<Rightarrow> Inl e | Inr akj \<Rightarrow>
              case GetFloat64 aug [int i, int j] of Inl e \<Rightarrow> Inl e | Inr aij \<Rightarrow>
                SetFloat64 aug (f64_sub akj (f64_mul factor aij)) [int k, int j])
           (f64_array (mat_list n w M) [int n, int w]) =
         Inr (f64_array (mat_list n w
                (\<lambda>r c. if r = k \<and> c < m then f64_sub (M k c) (f64_mul factor (M i c)) else M r c))
                [int n, int w])"
proof (rule row_loop[OF assms(1,4)])
  fix j
  assume j: "j < m"
  then have "j < w" using assms(4) by simp
  then show "(case GetFloat64 (f64_array (mat_list n w
                (\<lambda>r c. if r = k \<and> c < j then f64_sub (M k c) (f64_mul factor (M i c)) else M r c))
                [int n, int w]) [int k, int j] of
          Inl e \<Rightarrow> Inl e
        | Inr akj \<Rightarrow>
           case GetFloat64 (f64_array (mat_list n w
                (\<lambda>r c. if r = k \<and> c < j then f64_sub (M k c) (f64_mul factor (M i c)) else M r c))
                [int n, int w]) [int i, int j] of
             Inl e \<Rightarrow> Inl e
           | Inr aij \<Rightarrow> SetFloat64 (f64_array (mat_list n w
                (\<lambda>r c. if r = k \<and> c < j then f64_sub (M k c) (f64_mul factor (M i c)) else M r c))
                [int n, int w]) (f64_sub akj (f64_mul factor aij)) [int k, int j]) =
       SetFloat64 (f64_array (mat_list n w
                (\<lambda>r c. if r = k \<and> c < j then f64_sub (M k c) (f64_mul factor (M i c)) else M r c))
                [int n, int w]) (f64_sub (M k j) (f64_mul factor (M i j))) [int k, int j]"
    using assms(1,2,3) by (simp add: mat_Get)
qed

lemma eliminate_loop:
  assumes "i < n" "i < w" "m \<le> n"
  shows "for_loop [0..<m]
           (\<lambda>k aug.
              if k = i then Inr aug
              else case GetFloat64 aug [int k, int i] of Inl e \<Rightarrow> Inl e | Inr factor \<Rightarrow>
                for_loop [0..<w]
                  (\<lambda>j aug.
                     case GetFloat64 aug [int k, int j] of Inl e \<Rightarrow> Inl e | Inr akj \<Rightarrow>
                     case GetFloat64 aug [int i, int j] of Inl e \<Rightarrow> Inl e | Inr aij \<Rightarrow>
                       SetFloat64 aug (f64_sub akj (f64_mul factor aij)) [int k, int j])
                  aug)
           (f64_array (mat_list n w M) [int n, int w]) =
         Inr (f64_array (mat_list n w
                (\<lambda>r c. if r < m \<and> r \<noteq> i \<and> c < w
                       then f64_sub (M r c) (f64_mul (M r i) (M i c)) else M r c))
                [int n, int w])"
  using assms(3)
proof (induction m)
  case 0
  then show ?case by simp
next
  case (Suc m)
  let ?E = "\<lambda>m. (\<lambda>r c. if r < m \<and> r \<noteq> i \<and> c < w
                       then f64_sub (M r c) (f64_mul (M r i) (M i c)) else M r c)"
  let ?body = "(\<lambda>k aug.
              if k = i then Inr aug
              else case GetFloat64 aug [int k, int i] of Inl e \<Rightarrow> Inl e | Inr factor \<Rightarrow>
                for_loop [0..<w]
                  (\<lambda>j aug.
                     case GetFloat64 aug [int k, int j] of Inl e \<Rightarrow> Inl e | Inr akj \<Rightarrow>
                     case GetFloat64 aug [int i, int j] of Inl e \<Rightarrow> Inl e | Inr aij \<Rightarrow>
                       SetFloat64 aug (f64_sub akj (f64_mul factor aij)) [int k, int j])
                  aug)"
  from Suc.prems have mn: "m < n" by simp
  have IH: "for_loop [0..<m] ?body (f64_array (mat_list n w M) [int n, int w]) =
      Inr (f64_array (mat_list n w (?E m)) [int n, int w])"
    using Suc by simp
  have step: "?body m (f64_array (mat_list n w (?E m)) [int n, int w]) =
      Inr (f64_array (mat_list n w (?E (Suc m))) [int n, int w])"
  proof (cases "m = i")
    case True
    then have "?E (Suc m) = ?E m"
      by (auto simp: fun_eq_iff less_Suc_eq)
    with True show ?thesis by simp
  next
    case False
    have g: "GetFloat64 (f64_array (mat_list n w (?E m)) [int n, int w]) [int m, int i] =
        Inr (M m i)"
      using mn assms(2) by (simp add: mat_Get)
    have "for_loop [0..<w]
              (\<lambda>j aug.
                 case GetFloat64 aug [int m, int j] of Inl e \<Rightarrow> Inl e | Inr akj \<Rightarrow>
                 case GetFloat64 aug [int i, int j] of Inl e \<Rightarrow> Inl e | Inr aij \<Rightarrow>
                   SetFloat64 aug (f64_sub akj (f64_mul (M m i) aij)) [int m, int j])
              (f64_array (mat_list n w (?E m)) [int n, int w]) =
          Inr (f64_array (mat_list n w
                (\<lambda>r c. if r = m \<and> c < w
                       then f64_sub (?E m m c) (f64_mul (M m i) (?E m i c)) else ?E m r c))
                [int n, int w])"
      by (rule eliminate_row_loop[OF mn assms(1) False le_refl])
    moreover have "(\<lambda>r c. if r = m \<and> c < w
                       then f64_sub (?E m m c) (f64_mul (M m i) (?E m i c)) else ?E m r c) =
        ?E (Suc m)"
      using False by (auto simp: fun_eq_iff less_Suc_eq)
    ultimately show ?thesis
      using False by (simp add: g)
  qed
  show ?case
    unfolding for_loop_snoc IH using step by simp
qed

lemma pivot_step:
  assumes "i < n"
  shows "(case GetFloat64 (f64_array (mat_list n (2 * n) M) [int n, int (2 * n)]) [int i, int i] of
            Inl e \<Rightarrow> Inl e
          | Inr pivot \<Rightarrow>
          if f64_lt (f64_abs pivot) f64_1e_10 then Inl SingularMatrixError
          else
            case for_loop [0..<2 * n]
                   (\<lambda>j aug. case GetFloat64 aug [int i, int j] of
                               Inl e \<Rightarrow> Inl e
                             | Inr v \<Rightarrow> SetFloat64 aug (f64_div v pivot) [int i, int j])
                   (f64_array (mat_list n (2 * n) M) [int n, int (2 * n)]) of
              Inl e \<Rightarrow> Inl e
            | Inr aug \<Rightarrow>
                for_loop [0..<n]
                  (\<lambda>k aug.
                     if k = i then Inr aug
                     else case GetFloat64 aug [int k, int i] of Inl e \<Rightarrow> Inl e | Inr factor \<Rightarrow>
                       for_loop [0..<2 * n]
                         (\<lambda>j aug.
                            case GetFloat64 aug [int k, int j] of Inl e \<Rightarrow> Inl e | Inr akj \<Rightarrow>
                            case GetFloat64 aug [int i, int j] of Inl e \<Rightarrow> Inl e | Inr aij \<Rightarrow>
                              SetFloat64 aug (f64_sub akj (f64_mul factor aij)) [int k, int j])
                         aug)
                  aug) =
         (case spec_pivot_step i M of
            None \<Rightarrow> Inl SingularMatrixError
          | Some M' \<Rightarrow> Inr (f64_array (mat_list n (2 * n) M') [int n, int (2 * n)]))"
proof -
  have i2: "i < 2 * n" using assms by simp
  have g: "GetFloat64 (f64_array (mat_list n (2 * n) M) [int n, int (2 * n)]) [int i, int i] =
      Inr (M i i)"
    by (rule mat_Get[OF assms i2])
  let ?N = "(\<lambda>r c. if r = i \<and> c < 2 * n then f64_div (M i c) (M i i) else M r c)"
  have nrm: "for_loop [0..<2 * n]
                   (\<lambda>j aug. case GetFloat64 aug [int i, int j] of
                               Inl e \<Rightarrow> Inl e
                             | Inr v \<Rightarrow> SetFloat64 aug (f64_div v (M i i)) [int i, int j])
                   (f64_array (mat_list n (2 * n) M) [int n, int (2 * n)]) =
      Inr (f64_array (mat_list n (2 * n) ?N) [int n, int (2 * n)])"
    by (rule normalize_loop[OF assms le_refl])
  let ?E = "(\<lambda>r c. if r < n \<and> r \<noteq> i \<and> c < 2 * n
                       then f64_sub (?N r c) (f64_mul (?N r i) (?N i c)) else ?N r c)"
  have elim: "for_loop [0..<n]
                  (\<lambda>k aug.
                     if k = i then Inr aug
                     else case GetFloat64 aug [int k, int i] of Inl e \<Rightarrow> Inl e | Inr factor \<Rightarrow>
                       for_loop [0..<2 * n]
                         (\<lambda>j aug.
                            case GetFloat64 aug [int k, int j] of Inl e \<Rightarrow> Inl e | Inr akj \<Rightarrow>
                            case GetFloat64 aug [int i, int j] of Inl e \<Rightarrow> Inl e | Inr aij \<Rightarrow>
                              SetFloat64 aug (f64_sub akj (f64_mul factor aij)) [int k, int j])
                         aug)
                  (f64_array (mat_list n (2 * n) ?N) [int n, int (2 * n)]) =
      Inr (f64_array (mat_list n (2 * n) ?E) [int n, int (2 * n)])"
    by (rule eliminate_loop[OF assms i2 le_refl])
  have "mat_list n (2 * n) ?E =
      mat_list n (2 * n) (spec_eliminate i (spec_normalize_row i M))"
    by (rule mat_list_cong) (simp add: spec_eliminate_def spec_normalize_row_def)
  then have e2: "f64_array (mat_list n (2 * n) ?E) [int n, int (2 * n)] =
      f64_array (mat_list n (2 * n) (spec_eliminate i (spec_normalize_row i M)))
        [int n, int (2 * n)]"
    by (rule arg_cong)
  show ?thesis
  proof (cases "f64_lt (f64_abs (M i i)) f64_1e_10")
    case True
    then show ?thesis
      by (simp only: g sum.case if_True spec_pivot_step_def option.case)
  next
    case False
    then show ?thesis
      by (simp only: g sum.case if_False nrm elim e2 spec_pivot_step_def option.case)
  qed
qed

lemma Inv_eliminate_prefix:
  assumes "m \<le> n"
  shows "for_loop [0..<m]
       (\<lambda>i aug.
          case GetFloat64 aug [int i, int i] of Inl e \<Rightarrow> Inl e | Inr pivot \<Rightarrow>
          if f64_lt (f64_abs pivot) f64_1e_10 then Inl SingularMatrixError
          else
            case for_loop [0..<2 * n]
                   (\<lambda>j aug. case GetFloat64 aug [int i, int j] of
                               Inl e \<Rightarrow> Inl e
                             | Inr v \<Rightarrow> SetFloat64 aug (f64_div v pivot) [int i, int j])
                   aug of
              Inl e \<Rightarrow> Inl e
            | Inr aug \<Rightarrow>
                for_loop [0..<n]
                  (\<lambda>k aug.
                     if k = i then Inr aug
                     else case GetFloat64 aug [int k, int i] of Inl e \<Rightarrow> Inl e | Inr factor \<Rightarrow>
                       for_loop [0..<2 * n]
                         (\<lambda>j aug.
                            case GetFloat64 aug [int k, int j] of Inl e \<Rightarrow> Inl e | Inr akj \<Rightarrow>
                            case GetFloat64 aug [int i, int j] of Inl e \<Rightarrow> Inl e | Inr aij \<Rightarrow>
                              SetFloat64 aug (f64_sub akj (f64_mul factor aij)) [int k, int j])
                         aug)
                  aug)
       (f64_array (mat_list n (2 * n) M) [int n, int (2 * n)]) =
     (case spec_gauss_jordan m M of
        None \<Rightarrow> Inl SingularMatrixError
      | Some M' \<Rightarrow> Inr (f64_array (mat_list n (2 * n) M') [int n, int (2 * n)]))"
  using assms
proof (induction m)
  case 0
  then show ?case by (simp add: spec_gauss_jordan_def)
next
  case (Suc m)
  then have mn: "m < n" by simp
  let ?body = "(\<lambda>i aug.
          case GetFloat64 aug [int i, int i] of Inl e \<Rightarrow> Inl e | Inr pivot \<Rightarrow>
          if f64_lt (f64_abs pivot) f64_1e_10 then Inl SingularMatrixError
          else
            case for_loop [0..<2 * n]
                   (\<lambda>j aug. case GetFloat64 aug [int i, int j] of
                               Inl e \<Rightarrow> Inl e
                             | Inr v \<Rightarrow> SetFloat64 aug (f64_div v pivot) [int i, int j])
                   aug of
              Inl e \<Rightarrow> Inl e
            | Inr aug \<Rightarrow>
                for_loop [0..<n]
                  (\<lambda>k aug.
                     if k = i then Inr aug
                     else case GetFloat64 aug [int k, int i] of Inl e \<Rightarrow> Inl e | Inr factor \<Rightarrow>
                       for_loop [0..<2 * n]
                         (\<lambda>j aug.
                            case GetFloat64 aug [int k, int j] of Inl e \<Rightarrow> Inl e | Inr akj \<Rightarrow>
                            case GetFloat64 aug [int i, int j] of Inl e \<Rightarrow> Inl e | Inr aij \<Rightarrow>
                              SetFloat64 aug (f64_sub akj (f64_mul factor aij)) [int k, int j])
                         aug)
                  aug)"
  have IH: "for_loop [0..<m] ?body (f64_array (mat_list n (2 * n) M) [int n, int (2 * n)]) =
     (case spec_gauss_jordan m M of
        None \<Rightarrow> Inl SingularMatrixError
      | Some M' \<Rightarrow> Inr (f64_array (mat_list n (2 * n) M') [int n, int (2 * n)]))"
    by (rule Suc.IH) (use mn in simp)
  have gj: "spec_gauss_jordan (Suc m) M =
      (case spec_gauss_jordan m M of None \<Rightarrow> None | Some M' \<Rightarrow> spec_pivot_step m M')"
    by (simp add: spec_gauss_jordan_def)
  show ?case
  proof (cases "spec_gauss_jordan m M")
    case None
    show ?thesis
      unfolding for_loop_snoc IH gj None option.case sum.case by (rule refl)
  next
    case (Some M')
    show ?thesis
      unfolding for_loop_snoc IH gj Some option.case sum.case by (rule pivot_step[OF mn])
  qed
qed

lemma Inv_eliminate_spec:
  "Inv_eliminate n (f64_array (mat_list n (2 * n) M) [int n, int (2 * n)]) =
     (case spec_gauss_jordan n M of
        None \<Rightarrow> Inl SingularMatrixError
      | Some M' \<Rightarrow> Inr (f64_array (mat_list n (2 * n) M') [int n, int (2 * n)]))"
  unfolding Inv_eliminate_def by (rule Inv_eliminate_prefix[OF le_refl])

lemma augment_prefix:
  assumes ent: "\<forall>i<n. \<forall>j<n. GetFloat64 a [int i, int j] = Inr (A i j)" and "m \<le> n"
  shows "for_loop [0..<m]
       (\<lambda>i aug.
          case for_loop [0..<n]
                 (\<lambda>j aug. case GetFloat64 a [int i, int j] of
                             Inl e \<Rightarrow> Inl e
                           | Inr v \<Rightarrow> SetFloat64 aug v [int i, int j])
                 aug of
            Inl e \<Rightarrow> Inl e
          | Inr aug \<Rightarrow> SetFloat64 aug f64_one [int i, int i + int n])
       (f64_array (mat_list n (2 * n) (\<lambda>_ _. 0)) [int n, int (2 * n)]) =
     Inr (f64_array (mat_list n (2 * n)
            (\<lambda>r c. if r < m then spec_augment n A r c else 0)) [int n, int (2 * n)])"
  using assms(2)
proof (induction m)
  case 0
  then show ?case by simp
next
  case (Suc m)
  then have mn: "m < n" by simp
  let ?body = "(\<lambda>i aug.
          case for_loop [0..<n]
                 (\<lambda>j aug. case GetFloat64 a [int i, int j] of
                             Inl e \<Rightarrow> Inl e
                           | Inr v \<Rightarrow> SetFloat64 aug v [int i, int j])
                 aug of
            Inl e \<Rightarrow> Inl e
          | Inr aug \<Rightarrow> SetFloat64 aug f64_one [int i, int i + int n])"
  let ?P = "\<lambda>m. (\<lambda>r c. if r < m then spec_augment n A r c else 0)"
  have IH: "for_loop [0..<m] ?body
       (f64_array (mat_list n (2 * n) (\<lambda>_ _. 0)) [int n, int (2 * n)]) =
     Inr (f64_array (mat_list n (2 * n) (?P m)) [int n, int (2 * n)])"
    by (rule Suc.IH) (use mn in simp)
  let ?R = "(\<lambda>r c. if r = m \<and> c < n then A m c else ?P m r c)"
  have row: "for_loop [0..<n]
                 (\<lambda>j aug. case GetFloat64 a [int m, int j] of
                             Inl e \<Rightarrow> Inl e
                           | Inr v \<Rightarrow> SetFloat64 aug v [int m, int j])
                 (f64_array (mat_list n (2 * n) (?P m)) [int n, int (2 * n)]) =
      Inr (f64_array (mat_list n (2 * n) ?R) [int n, int (2 * n)])"
  proof (rule row_loop[OF mn])
    show "n \<le> 2 * n" by simp
  next
    fix j
    assume "j < n"
    with ent mn have "GetFloat64 a [int m, int j] = Inr (A m j)" by simp
    then show "(case GetFloat64 a [int m, int j] of
          Inl e \<Rightarrow> Inl e
        | Inr v \<Rightarrow> SetFloat64 (f64_array (mat_list n (2 * n)
              (\<lambda>r c. if r = m \<and> c < j then A m c else ?P m r c)) [int n, int (2 * n)])
            v [int m, int j]) =
       SetFloat64 (f64_array (mat_list n (2 * n)
              (\<lambda>r c. if r = m \<and> c < j then A m c else ?P m r c)) [int n, int (2 * n)])
            (A m j) [int m, int j]"
      by simp
  qed
  have s: "SetFloat64 (f64_array (mat_list n (2 * n) ?R) [int n, int (2 * n)]) f64_one
             [int m, int (m + n)] =
      Inr (f64_array (mat_list n (2 * n)
             (\<lambda>r' c'. if r' = m \<and> c' = m + n then f64_one else ?R r' c')) [int n, int (2 * n)])"
    by (rule mat_Set) (use mn in simp_all)
  have "(\<lambda>r' c'. if r' = m \<and> c' = m + n then f64_one else ?R r' c') = ?P (Suc m)"
    by (auto simp: fun_eq_iff less_Suc_eq spec_augment_def)
  with s have s': "SetFloat64 (f64_array (mat_list n (2 * n) ?R) [int n, int (2 * n)]) f64_one
             [int m, int m + int n] =
      Inr (f64_array (mat_list n (2 * n) (?P (Suc m))) [int n, int (2 * n)])"
    by (simp only: of_nat_add)
  show ?case
    unfolding for_loop_snoc IH sum.case row s' by (rule refl)
qed

lemma Inv_augment_spec:
  assumes "\<forall>i<n. \<forall>j<n. GetFloat64 a [int i, int j] = Inr (A i j)"
  shows "Inv_augment a n (f64_array (mat_list n (2 * n) (\<lambda>_ _. 0)) [int n, int (2 * n)]) =
     Inr (f64_array (mat_list n (2 * n) (spec_augment n A)) [int n, int (2 * n)])"
proof -
  have "mat_list n (2 * n) (\<lambda>r c. if r < n then spec_augment n A r c else 0) =
      mat_list n (2 * n) (spec_augment n A)"
    by (rule mat_list_cong) simp
  then show ?thesis
    unfolding Inv_augment_def using augment_prefix[OF assms le_refl] by (simp only:)
qed

lemma extract_prefix:
  assumes "m \<le> n"
  shows "for_loop [0..<m]
       (\<lambda>i result.
          for_loop [0..<n]
            (\<lambda>j result. case GetFloat64 (f64_array (mat_list n (2 * n) M) [int n, int (2 * n)])
                                 [int i, int j + int n] of
                            Inl e \<Rightarrow> Inl e
                          | Inr v \<Rightarrow> SetFloat64 result v [int i, int j])
            result)
       (f64_array (mat_list n n (\<lambda>_ _. 0)) [int n, int n]) =
     Inr (f64_array (mat_list n n
            (\<lambda>r c. if r < m then (if c < n then M r (c + n) else 0) else 0)) [int n, int n])"
  using assms
proof (induction m)
  case 0
  then show ?case by simp
next
  case (Suc m)
  then have mn: "m < n" by simp
  let ?body = "(\<lambda>i result.
          for_loop [0..<n]
            (\<lambda>j result. case GetFloat64 (f64_array (mat_list n (2 * n) M) [int n, int (2 * n)])
                                 [int i, int j + int n] of
                            Inl e \<Rightarrow> Inl e
                          | Inr v \<Rightarrow> SetFloat64 result v [int i, int j])
            result)"
  let ?P = "\<lambda>m. (\<lambda>r c. if r < m then (if c < n then M r (c + n) else (0::float64)) else 0)"
  have IH: "for_loop [0..<m] ?body (f64_array (mat_list n n (\<lambda>_ _. 0)) [int n, int n]) =
     Inr (f64_array (mat_list n n (?P m)) [int n, int n])"
    by (rule Suc.IH) (use mn in simp)
  have row: "for_loop [0..<n]
            (\<lambda>j result. case GetFloat64 (f64_array (mat_list n (2 * n) M) [int n, int (2 * n)])
                                 [int m, int j + int n] of
                            Inl e \<Rightarrow> Inl e
                          | Inr v \<Rightarrow> SetFloat64 result v [int m, int j])
            (f64_array (mat_list n n (?P m)) [int n, int n]) =
      Inr (f64_array (mat_list n n
             (\<lambda>r c. if r = m \<and> c < n then M m (c + n) else ?P m r c)) [int n, int n])"
  proof (rule row_loop[OF mn le_refl])
    fix j
    assume j: "j < n"
    have "GetFloat64 (f64_array (mat_list n (2 * n) M) [int n, int (2 * n)])
            [int m, int (j + n)] = Inr (M m (j + n))"
      by (rule mat_Get) (use mn j in simp_all)
    then have "GetFloat64 (f64_array (mat_list n (2 * n) M) [int n, int (2 * n)])
            [int m, int j + int n] = Inr (M m (j + n))"
      by (simp only: of_nat_add)
    then show "(case GetFloat64 (f64_array (mat_list n (2 * n) M) [int n, int (2 * n)])
                  [int m, int j + int n] of
          Inl e \<Rightarrow> Inl e
        | Inr v \<Rightarrow> SetFloat64 (f64_array (mat_list n n
              (\<lambda>r c. if r = m \<and> c < j then M m (c + n) else ?P m r c)) [int n, int n])
            v [int m, int j]) =
       SetFloat64 (f64_array (mat_list n n
              (\<lambda>r c. if r = m \<and> c < j then M m (c + n) else ?P m r c)) [int n, int n])
            (M m (j + n)) [int m, int j]"
      by (simp only: sum.case)
  qed
  have "(\<lambda>r c. if r = m \<and> c < n then M m (c + n) else ?P m r c) = ?P (Suc m)"
    by (auto simp: fun_eq_iff less_Suc_eq)
  with row have row': "for_loop [0..<n]
            (\<lambda>j result. case GetFloat64 (f64_array (mat_list n (2 * n) M) [int n, int (2 * n)])
                                 [int m, int j + int n] of
                            Inl e \<Rightarrow> Inl e
                          | Inr v \<Rightarrow> SetFloat64 result v [int m, int j])
            (f64_array (mat_list n n (?P m)) [int n, int n]) =
      Inr (f64_array (mat_list n n (?P (Suc m))) [int n, int n])"
    by (simp only:)
  show ?case
    unfolding for_loop_snoc IH sum.case row' by (rule refl)
qed

lemma Inv_extract_spec:
  "Inv_extract n (f64_array (mat_list n (2 * n) M) [int n, int (2 * n)])
       (f64_array (mat_list n n (\<lambda>_ _. 0)) [int n, int n]) =
     Inr (f64_array (mat_list n n (spec_right_half n M)) [int n, int n])"
proof -
  have "mat_list n n (\<lambda>r c. if r < n then (if c < n then M r (c + n) else 0) else 0) =
      mat_list n n (spec_right_half n M)"
    by (rule mat_list_cong) (simp add: spec_right_half_def)
  then show ?thesis
    unfolding Inv_extract_def using extract_prefix[OF le_refl, of n M] by (simp only:)
qed

lemma Zeros_matrix:
  "Zeros [int r, int c] Float64 = Inr (f64_array (mat_list r c (\<lambda>_ _. 0)) [int r, int c])"
proof -
  have "0 \<le> computeSize [int r, int c]"
    by (simp add: computeSize_2d)
  from Zeros_f64_array[OF this] show ?thesis
    by (simp add: computeSize_2d mat_list_zero nat_mult_distrib)
qed

lemma Inv_spec:
  assumes "ndim a = 2" "shape a = [int n, int n]"
    "\<forall>i<n. \<forall>j<n. GetFloat64 a [int i, int j] = Inr (A i j)"
  shows "Inv a =
     (case spec_gauss_jordan n (spec_augment n A) of
        None \<Rightarrow> Inl SingularMatrixError
      | Some M \<Rightarrow> Inr (f64_array (mat_list n n (spec_right_half n M)) [int n, int n]))"
proof -
  have z2: "Zeros [int n, 2 * int n] Float64 =
      Inr (f64_array (mat_list n (2 * n) (\<lambda>_ _. 0)) [int n, int (2 * n)])"
    using Zeros_matrix[of n "2 * n"] by simp
  have z1: "Zeros [int n, int n] Float64 =
      Inr (f64_array (mat_list n n (\<lambda>_ _. 0)) [int n, int n])"
    by (rule Zeros_matrix)
  have sh: "\<not> length (shape a) < 2" "shape a ! 0 = int n" "shape a ! 1 = int n"
    by (simp_all add: assms(2))
  have "Inv a =
     (case Inv_eliminate n (f64_array (mat_list n (2 * n) (spec_augment n A))
             [int n, int (2 * n)]) of
        Inl e \<Rightarrow> Inl e
      | Inr aug \<Rightarrow> Inv_extract n aug (f64_array (mat_list n n (\<lambda>_ _. 0)) [int n, int n]))"
    unfolding Inv_def Let_def sh(2,3) nat_int z2 z1 sum.case Inv_augment_spec[OF assms(3)]
    using assms(1) sh(1) by simp
  also have "\<dots> =
     (case spec_gauss_jordan n (spec_augment n A) of
        None \<Rightarrow> Inl SingularMatrixError
      | Some M \<Rightarrow> Inr (f64_array (mat_list n n (spec_right_half n M)) [int n, int n]))"
    unfolding Inv_eliminate_spec
    by (cases "spec_gauss_jordan n (spec_augment n A)") (simp_all only: option.case sum.case Inv_extract_spec)
  finally show ?thesis .
qed

lemma spec_gauss_jordan_Suc:
  "spec_gauss_jordan (Suc n) M =
     (case spec_gauss_jordan n M of None \<Rightarrow> None | Some M' \<Rightarrow> spec_pivot_step n M')"
  by (simp add: spec_gauss_jordan_def)

lemma spec_gauss_jordan_None_iff:
  "spec_gauss_jordan n M0 = None \<longleftrightarrow>
     (\<exists>i<n. \<exists>M. spec_gauss_jordan i M0 = Some M \<and> f64_lt (f64_abs (M i i)) f64_1e_10)"
proof (induction n)
  case 0
  then show ?case by (simp add: spec_gauss_jordan_def)
next
  case (Suc n)
  show ?case
  proof (cases "spec_gauss_jordan n M0")
    case None
    with Suc obtain i M where "i < n" "spec_gauss_jordan i M0 = Some M"
      "f64_lt (f64_abs (M i i)) f64_1e_10"
      by auto
    then have "\<exists>i<Suc n. \<exists>M. spec_gauss_jordan i M0 = Some M \<and> f64_lt (f64_abs (M i i)) f64_1e_10"
      using less_SucI by blast
    then show ?thesis
      by (simp add: spec_gauss_jordan_Suc None)
  next
    case (Some M')
    with Suc have no: "\<not> (\<exists>i<n. \<exists>M. spec_gauss_jordan i M0 = Some M \<and>
        f64_lt (f64_abs (M i i)) f64_1e_10)"
      by simp
    have "spec_gauss_jordan (Suc n) M0 = None \<longleftrightarrow> f64_lt (f64_abs (M' n n)) f64_1e_10"
      by (simp add: spec_gauss_jordan_Suc Some spec_pivot_step_def)
    also have "\<dots> \<longleftrightarrow> (\<exists>i<Suc n. \<exists>M. spec_gauss_jordan i M0 = Some M \<and>
        f64_lt (f64_abs (M i i)) f64_1e_10)"
      using no Some by (auto simp: less_Suc_eq)
    finally show ?thesis .
  qed
qed

lemma f64_1e_10_bits: "f64_1e_10 = 0x3DDB7CDFD9D7BDBB"
  by (simp add: f64_1e_10_def f64_of_ratio_def f64_round_ratio_def ieee_round_ratio_def
      ieee_round_def round_half_even_def nbits_def compute_floorlog Let_def)

lemma zero_pivot_small: "f64_lt (f64_abs 0) f64_1e_10"
  unfolding f64_1e_10_bits
  by (simp add: f64_lt_def f64_abs_def f64_isNaN_def f64_field_def f64_frac_def f64_key_def
      f64_neg_def)

lemma Inv_zero_leading_entry:
  assumes "vals ! 0 = 0" "length vals = 4"
  shows "Inv (f64_array vals [2, 2]) = Inl SingularMatrixError"
proof -
  let ?A = "\<lambda>i j. vals ! (i * 2 + j)"
  have h1: "ndim (f64_array vals [2, 2]) = 2"
    by (simp add: f64_array_fields)
  have h2: "shape (f64_array vals [2, 2]) = [int 2, int 2]"
    by (simp add: f64_array_fields)
  have h3: "\<forall>i<2. \<forall>j<2. GetFloat64 (f64_array vals [2, 2]) [int i, int j] = Inr (?A i j)"
    using f64_array_2d_Get[of _ 2 _ 2 vals] assms(2) by simp
  have "spec_gauss_jordan 0 (spec_augment 2 ?A) = Some (spec_augment 2 ?A)"
    by (simp add: spec_gauss_jordan_def)
  moreover have "f64_lt (f64_abs (spec_augment 2 ?A 0 0)) f64_1e_10"
    using zero_pivot_small by (simp add: spec_augment_def assms(1))
  ultimately have "spec_gauss_jordan 2 (spec_augment 2 ?A) = None"
    unfolding spec_gauss_jordan_None_iff[of 2] by (intro exI[of _ 0]) simp
  then show ?thesis
    unfolding Inv_spec[OF h1 h2 h3] by simp
qed

text \<open>
  Claim C3.  For a square 2-D matrix with entries \<open>A i j\<close>, \<open>Inv\<close> builds the augmented
  matrix \<open>[A | I]\<close> of width \<open>2n\<close> and processes the pivot rows \<open>0, \<dots>, n-1\<close> in order,
  without row swaps: it fails with the singular-matrix error exactly when at some step \<open>i\<close>
  the current diagonal entry has \<open>|M i i| < 1e-10\<close>; otherwise row \<open>i\<close> is divided by the
  pivot, column \<open>i\<close> is eliminated from every other row, and the result is the right half
  of the reduced matrix.  \<open>Inv\<close> on [[0,0],[0,0]] fails with the singular-matrix error.
\<close>

theorem Inv_gauss_jordan:
  assumes "ndim a = 2" and "shape a = [int n, int n]"
    and "\<forall>i<n. \<forall>j<n. GetFloat64 a [int i, int j] = Inr (A i j)"
  shows "Inv a =
          (case spec_gauss_jordan n (spec_augment n A) of
             None \<Rightarrow> Inl SingularMatrixError
           | Some M \<Rightarrow> Inr (f64_array (mat_list n n (spec_right_half n M)) [int n, int n]))
       \<and> (Inv a = Inl SingularMatrixError \<longleftrightarrow>
            (\<exists>i<n. \<exists>M. spec_gauss_jordan i (spec_augment n A) = Some M \<and>
                    f64_lt (f64_abs (M i i)) f64_1e_10))
       \<and> (\<exists>Z. FromSliceFloat64 (map f64_of_int [0, 0, 0, 0]) [2, 2] = Inr Z \<and>
              Inv Z = Inl SingularMatrixError)"
proof (intro conjI)
  show inv: "Inv a =
          (case spec_gauss_jordan n (spec_augment n A) of
             None \<Rightarrow> Inl SingularMatrixError
           | Some M \<Rightarrow> Inr (f64_array (mat_list n n (spec_right_half n M)) [int n, int n]))"
    by (rule Inv_spec[OF assms])
  have "Inv a = Inl SingularMatrixError \<longleftrightarrow> spec_gauss_jordan n (spec_augment n A) = None"
    unfolding inv by (simp split: option.splits)
  then show "Inv a = Inl SingularMatrixError \<longleftrightarrow>
            (\<exists>i<n. \<exists>M. spec_gauss_jordan i (spec_augment n A) = Some M \<and>
                    f64_lt (f64_abs (M i i)) f64_1e_10)"
    unfolding spec_gauss_jordan_None_iff .
  show "\<exists>Z. FromSliceFloat64 (map f64_of_int [0, 0, 0, 0]) [2, 2] = Inr Z \<and>
              Inv Z = Inl SingularMatrixError"
  proof -
    have "FromSliceFloat64 (map f64_of_int [0, 0, 0, 0]) [2, 2] =
            Inr (f64_array (map f64_of_int [0, 0, 0, 0]) [2, 2])"
      by (rule FromSliceFloat64_f64_array) (simp add: computeSize_2d)
    moreover have "Inv (f64_array (map f64_of_int [0, 0, 0, 0]) [2, 2]) = Inl SingularMatrixError"
      by (rule Inv_zero_leading_entry) (simp_all add: f64_of_int_0)
    ultimately show ?thesis by blast
  qed
qed

theorem Inv_gauss_jordan_witness:
  "Inv (f64_array [0, f64_one, f64_one, 0] [2, 2]) = Inl SingularMatrixError"
proof -
  let ?vals = "[0, f64_one, f64_one, 0]"
  let ?A = "\<lambda>i j. ?vals ! (i * 2 + j)"
  have h1: "ndim (f64_array ?vals [2, 2]) = 2"
    by (simp add: f64_array_fields)
  have h2: "shape (f64_array ?vals [2, 2]) = [int 2, int 2]"
    by (simp add: f64_array_fields)
  have h3: "\<forall>i<2. \<forall>j<2. GetFloat64 (f64_array ?vals [2, 2]) [int i, int j] = Inr (?A i j)"
    using f64_array_2d_Get[of _ 2 _ 2 ?vals] by simp
  have g0: "spec_gauss_jordan 0 (spec_augment 2 ?A) = Some (spec_augment 2 ?A)"
    by (simp add: spec_gauss_jordan_def)
  have small: "f64_lt (f64_abs (spec_augment 2 ?A 0 0)) f64_1e_10"
    using zero_pivot_small by (simp add: spec_augment_def)
  from Inv_gauss_jordan[OF h1 h2 h3] have
    "Inv (f64_array ?vals [2, 2]) = Inl SingularMatrixError \<longleftrightarrow>
       (\<exists>i<2. \<exists>M. spec_gauss_jordan i (spec_augment 2 ?A) = Some M \<and>
               f64_lt (f64_abs (M i i)) f64_1e_10)"
    by blast
  moreover have "\<exists>i<2. \<exists>M. spec_gauss_jordan i (spec_augment 2 ?A) = Some M \<and>
               f64_lt (f64_abs (M i i)) f64_1e_10"
    using g0 small by (intro exI[of _ 0]) simp
  ultimately show ?thesis by blast
qed

section \<open>Row-major index arithmetic\<close>

lemma length_spec_strides: "length (spec_strides it shp) = length shp"
  by (induction shp) simp_all

lemma length_spec_unravel: "length (spec_unravel shp i) = length shp"
  by (induction shp) simp_all

lemma computeStrides_suffix:
  assumes "k \<le> length shp" "length s0 = length shp"
  shows "fold (\<lambda>i (strs, stride). (strs[i := stride], stride * shp ! i)) (rev [k..<length shp])
           (s0, it) =
         (take k s0 @ spec_strides it (drop k shp), it * prod_list (drop k shp))"
  using assms(1)
proof (induction "length shp - k" arbitrary: k)
  case 0
  then show ?case using assms(2) by simp
next
  case (Suc d)
  then have k: "k < length shp" by simp
  have up: "rev [k..<length shp] = rev [Suc k..<length shp] @ [k]"
    using k by (simp add: upt_conv_Cons)
  have dr: "drop k shp = shp ! k # drop (Suc k) shp"
    using k by (simp add: Cons_nth_drop_Suc)
  have IH: "fold (\<lambda>i (strs, stride). (strs[i := stride], stride * shp ! i))
      (rev [Suc k..<length shp]) (s0, it) =
      (take (Suc k) s0 @ spec_strides it (drop (Suc k) shp), it * prod_list (drop (Suc k) shp))"
    using Suc(1)[of "Suc k"] Suc(2) k by simp
  have "(take (Suc k) s0 @ spec_strides it (drop (Suc k) shp))[k := it * prod_list (drop (Suc k) shp)]
      = take k s0 @ (it * prod_list (drop (Suc k) shp)) # spec_strides it (drop (Suc k) shp)"
    using k assms(2) by (simp add: take_Suc_conv_app_nth list_update_append)
  then show ?case
    unfolding up fold_append comp_def IH dr by (simp add: mult_ac)
qed

lemma computeStrides_spec: "computeStrides shp it = spec_strides it shp"
proof (cases "shp = []")
  case True
  then show ?thesis by (simp add: computeStrides_def)
next
  case False
  have "fold (\<lambda>i (strs, stride). (strs[i := stride], stride * shp ! i)) (rev [0..<length shp])
           (make_ints (length shp), it) =
         (take 0 (make_ints (length shp)) @ spec_strides it (drop 0 shp), it * prod_list (drop 0 shp))"
    by (rule computeStrides_suffix) (simp_all add: make_ints_def)
  with False show ?thesis by (simp add: computeStrides_def)
qed

lemma go_quot_nonneg: "0 \<le> a \<Longrightarrow> 0 < b \<Longrightarrow> go_quot a b = a div b"
  by (simp add: go_quot_def sgn_if)

lemma go_rem_nonneg: "0 \<le> a \<Longrightarrow> 0 < b \<Longrightarrow> go_rem a b = a mod b"
  by (simp add: go_rem_def go_quot_nonneg minus_mult_div_eq_mod)

lemma prod_list_pos: "\<forall>d\<in>set shp. 0 < d \<Longrightarrow> 0 < (prod_list shp :: int)"
  by (induction shp) simp_all

lemma unravel_suffix:
  assumes pos: "\<forall>d\<in>set shp. 0 < d" and i: "0 \<le> i" and "k \<le> length shp"
    and "length ind0 = length shp"
  shows "for_loop (rev [k..<length shp])
          (\<lambda>j (indices, remaining).
             if j \<ge> length shp \<or> shp ! j = 0 then Inl RuntimePanic
             else Inr (indices[j := go_rem remaining (shp ! j)], go_quot remaining (shp ! j)))
          (ind0, i) =
         Inr (take k ind0 @ spec_unravel (drop k shp) i, i div prod_list (drop k shp))"
  using assms(3)
proof (induction "length shp - k" arbitrary: k)
  case 0
  then show ?case using assms(4) by simp
next
  case (Suc d)
  then have k: "k < length shp" by simp
  let ?body = "(\<lambda>j (indices, remaining).
             if j \<ge> length shp \<or> shp ! j = 0 then Inl RuntimePanic
             else Inr (indices[j := go_rem remaining (shp ! j)], go_quot remaining (shp ! j)))"
  have up: "rev [k..<length shp] = rev [Suc k..<length shp] @ [k]"
    using k by (simp add: upt_conv_Cons)
  have dr: "drop k shp = shp ! k # drop (Suc k) shp"
    using k by (simp add: Cons_nth_drop_Suc)
  have dk: "0 < shp ! k"
    using pos k by simp
  have pp: "0 < prod_list (drop (Suc k) shp)"
    by (rule prod_list_pos) (use pos in \<open>auto dest: in_set_dropD\<close>)
  then have r0: "0 \<le> i div prod_list (drop (Suc k) shp)"
    using i by (simp add: pos_imp_zdiv_nonneg_iff)
  have IH: "for_loop (rev [Suc k..<length shp]) ?body (ind0, i) =
      Inr (take (Suc k) ind0 @ spec_unravel (drop (Suc k) shp) i,
           i div prod_list (drop (Suc k) shp))"
    using Suc(1)[of "Suc k"] Suc(2) k by simp
  have upd: "(take (Suc k) ind0 @ spec_unravel (drop (Suc k) shp) i)
        [k := (i div prod_list (drop (Suc k) shp)) mod shp ! k] =
      take k ind0 @ spec_unravel (drop k shp) i"
    using k assms(4) by (simp add: dr take_Suc_conv_app_nth list_update_append)
  have "i div prod_list (drop k shp) = i div (prod_list (drop (Suc k) shp) * shp ! k)"
    by (simp add: dr mult.commute)
  also have "\<dots> = i div prod_list (drop (Suc k) shp) div shp ! k"
    using dk by (intro zdiv_zmult2_eq) simp
  finally have dv: "i div prod_list (drop (Suc k) shp) div shp ! k = i div prod_list (drop k shp)"
    by simp
  show ?case
    unfolding up for_loop_append IH
    using k dk by (simp add: go_rem_nonneg[OF r0 dk] go_quot_nonneg[OF r0 dk] upd dv)
qed

lemma unravelIndex_spec:
  assumes "ndim a = int (length (shape a))" "\<forall>d\<in>set (shape a). 0 < d" "0 \<le> i"
  shows "unravelIndex a i = Inr (spec_unravel (shape a) i)"
proof -
  have "for_loop (rev [0..<length (shape a)])
          (\<lambda>j (indices, remaining).
             if j \<ge> length (shape a) \<or> shape a ! j = 0 then Inl RuntimePanic
             else Inr (indices[j := go_rem remaining (shape a ! j)],
                       go_quot remaining (shape a ! j)))
          (make_ints (length (shape a)), i) =
         Inr (take 0 (make_ints (length (shape a))) @ spec_unravel (drop 0 (shape a)) i,
              i div prod_list (drop 0 (shape a)))"
    by (rule unravel_suffix[OF assms(2,3)]) (simp_all add: make_ints_def)
  then show ?thesis
    unfolding unravelIndex_def assms(1) nat_int by simp
qed

lemma sum_strides_ravel:
  assumes "list_all2 P shp idx"
  shows "(\<Sum>k<length idx. idx ! k * spec_strides it shp ! k) = it * spec_ravel shp idx"
  using assms
proof (induction rule: list_all2_induct)
  case Nil
  then show ?case by simp
next
  case (Cons d shp i idx)
  have "(\<Sum>k<length (i # idx). (i # idx) ! k * spec_strides it (d # shp) ! k) =
      i * (it * prod_list shp) + (\<Sum>k<length idx. idx ! k * spec_strides it shp ! k)"
    unfolding length_Cons sum.lessThan_Suc_shift by simp
  then show ?case
    using Cons by (simp add: algebra_simps)
qed

lemma spec_index_ok_length: "spec_index_ok shp idx \<Longrightarrow> length idx = length shp"
  by (simp add: spec_index_ok_def list_all2_lengthD)

lemma spec_index_ok_nth:
  "spec_index_ok shp idx \<Longrightarrow> k < length shp \<Longrightarrow> 0 \<le> idx ! k \<and> idx ! k < shp ! k"
  by (simp add: spec_index_ok_def list_all2_conv_all_nth)

lemma flatIndex_ravel:
  assumes "ndim a = int (length (shape a))" "strides a = spec_strides it (shape a)"
    "spec_index_ok (shape a) idx"
  shows "flatIndex a idx = Inr (it * spec_ravel (shape a) idx)"
proof -
  have len: "length idx = length (shape a)"
    by (rule spec_index_ok_length[OF assms(3)])
  have ls: "length (strides a) = length (shape a)"
    by (simp add: assms(2) length_spec_strides)
  have ok: "\<forall>k<length idx. spec_in_bounds (shape a ! k) (idx ! k)"
  proof (intro allI impI)
    fix k
    assume "k < length idx"
    with spec_index_ok_nth[OF assms(3), of k] len
    show "spec_in_bounds (shape a ! k) (idx ! k)"
      by (simp add: spec_in_bounds_def spec_normalize_def)
  qed
  have nrm: "spec_normalize (shape a ! k) (idx ! k) = idx ! k" if "k < length idx" for k
    using spec_index_ok_nth[OF assms(3), of k] that len by (simp add: spec_normalize_def)
  from flatIndex_normalized[OF assms(1) ls len] ok
  have "flatIndex a idx =
      Inr (\<Sum>k<length idx. spec_normalize (shape a ! k) (idx ! k) * strides a ! k)"
    by simp
  also have "(\<Sum>k<length idx. spec_normalize (shape a ! k) (idx ! k) * strides a ! k) =
      (\<Sum>k<length idx. idx ! k * spec_strides it (shape a) ! k)"
    by (rule sum.cong) (simp_all add: nrm assms(2))
  also have "\<dots> = it * spec_ravel (shape a) idx"
    using assms(3) unfolding spec_index_ok_def by (rule sum_strides_ravel)
  finally show ?thesis .
qed

lemma spec_unravel_ok:
  "\<forall>d\<in>set shp. 0 < d \<Longrightarrow> spec_index_ok shp (spec_unravel shp i)"
  by (induction shp) (simp_all add: spec_index_ok_def)

lemma spec_ravel_unravel_mod:
  "\<forall>d\<in>set shp. 0 < d \<Longrightarrow> spec_ravel shp (spec_unravel shp i) = i mod prod_list shp"
proof (induction shp)
  case Nil
  then show ?case by simp
next
  case (Cons d shp)
  then have IH: "spec_ravel shp (spec_unravel shp i) = i mod prod_list shp"
    by simp
  have "i mod (prod_list shp * d) = prod_list shp * (i div prod_list shp mod d) + i mod prod_list shp"
    using Cons.prems by (intro zmod_zmult2_eq) simp
  then show ?case
    by (simp add: IH mult.commute)
qed

lemma spec_ravel_unravel:
  assumes "\<forall>d\<in>set shp. 0 < d" "0 \<le> i" "i < prod_list shp"
  shows "spec_ravel shp (spec_unravel shp i) = i"
  using spec_ravel_unravel_mod[OF assms(1), of i] assms(2,3) by simp

lemma spec_ravel_bounds:
  assumes "spec_index_ok shp idx"
  shows "0 \<le> spec_ravel shp idx \<and> spec_ravel shp idx < prod_list shp"
  using assms unfolding spec_index_ok_def
proof (induction rule: list_all2_induct)
  case Nil
  then show ?case by simp
next
  case (Cons d shp i idx)
  then have r: "0 \<le> spec_ravel shp idx" "spec_ravel shp idx < prod_list shp"
    and i: "0 \<le> i" "i < d"
    by simp_all
  from r have P: "0 < prod_list shp" by simp
  have "i * prod_list shp + spec_ravel shp idx < i * prod_list shp + prod_list shp"
    using r by simp
  also have "\<dots> = (i + 1) * prod_list shp"
    by (simp add: algebra_simps)
  also have "\<dots> \<le> d * prod_list shp"
    using i P by (intro mult_right_mono) simp_all
  finally have "i * prod_list shp + spec_ravel shp idx < d * prod_list shp" .
  moreover have "0 \<le> i * prod_list shp + spec_ravel shp idx"
    using i r P by simp
  ultimately show ?case by simp
qed

lemma f64_array_Get:
  assumes "spec_index_ok shp idx" "int (length vals) = prod_list shp"
  shows "GetFloat64 (f64_array vals shp) idx = Inr (vals ! nat (spec_ravel shp idx))"
proof -
  from spec_ravel_bounds[OF assms(1)] have b: "0 \<le> spec_ravel shp idx"
    "spec_ravel shp idx < prod_list shp"
    by simp_all
  have "flatIndex (f64_array vals shp) idx = Inr (8 * spec_ravel (shape (f64_array vals shp)) idx)"
    by (rule flatIndex_ravel) (simp_all add: f64_array_def computeStrides_spec assms(1))
  then have fi: "flatIndex (f64_array vals shp) idx = Inr (8 * int (nat (spec_ravel shp idx)))"
    using b by (simp add: f64_array_def)
  show ?thesis
    by (rule GetFloat64_f64[OF fi]) (use b assms(2) in \<open>simp_all add: f64_array_def\<close>)
qed

lemma f64_array_Set:
  assumes "spec_index_ok shp idx" "int (length vals) = prod_list shp"
  shows "SetFloat64 (f64_array vals shp) v idx =
           Inr (f64_array (vals[nat (spec_ravel shp idx) := v]) shp)"
proof -
  from spec_ravel_bounds[OF assms(1)] have b: "0 \<le> spec_ravel shp idx"
    "spec_ravel shp idx < prod_list shp"
    by simp_all
  have "flatIndex (f64_array vals shp) idx = Inr (8 * spec_ravel (shape (f64_array vals shp)) idx)"
    by (rule flatIndex_ravel) (simp_all add: f64_array_def computeStrides_spec assms(1))
  then have fi: "flatIndex (f64_array vals shp) idx = Inr (8 * int (nat (spec_ravel shp idx)))"
    using b by (simp add: f64_array_def)
  have "SetFloat64 (f64_array vals shp) v idx =
      Inr ((f64_array vals shp)\<lparr>data :=
             concat (map (le_bytes 8) (vals[nat (spec_ravel shp idx) := v]))\<rparr>)"
    by (rule SetFloat64_f64[OF fi]) (use b assms(2) in \<open>simp_all add: f64_array_def\<close>)
  then show ?thesis
    by (simp add: f64_array_def)
qed

section \<open>Whole-array traversals\<close>

lemma pos_dims:
  "\<forall>d\<in>set shp. 0 \<le> d \<Longrightarrow> 0 < (prod_list shp :: int) \<Longrightarrow> \<forall>d\<in>set shp. 0 < d"
proof (induction shp)
  case Nil
  then show ?case by simp
next
  case (Cons d shp)
  then have d: "0 \<le> d" and nn: "\<forall>d\<in>set shp. 0 \<le> d" and p: "0 < d * prod_list shp"
    by simp_all
  have "0 \<le> prod_list shp" by (rule prod_list_nonneg[OF nn])
  with d p have "0 < d" "0 < prod_list shp"
    by (auto simp: zero_less_mult_iff)
  with Cons.IH nn show ?case by simp
qed

lemma traversal_facts:
  assumes nn: "\<forall>d\<in>set shp. 0 \<le> d" and i: "i < nat (computeSize shp)"
  shows "shp \<noteq> []" "\<forall>d\<in>set shp. 0 < d" "computeSize shp = prod_list shp"
    "int i < prod_list shp" "spec_index_ok shp (spec_unravel shp (int i))"
    "spec_ravel shp (spec_unravel shp (int i)) = int i"
proof -
  from i show ne: "shp \<noteq> []" by (auto simp: computeSize_def)
  then show cs: "computeSize shp = prod_list shp" by (simp add: computeSize_prod_list)
  with i show lt: "int i < prod_list shp" by simp
  then have "0 < prod_list shp" by simp
  from pos_dims[OF nn this] show pos: "\<forall>d\<in>set shp. 0 < d" .
  show "spec_index_ok shp (spec_unravel shp (int i))"
    by (rule spec_unravel_ok[OF pos])
  show "spec_ravel shp (spec_unravel shp (int i)) = int i"
    by (rule spec_ravel_unravel[OF pos _ lt]) simp
qed

lemma f64_array_unravel:
  assumes "\<forall>d\<in>set shp. 0 \<le> d" "i < nat (computeSize shp)"
  shows "unravelIndex (f64_array vals shp) (int i) = Inr (spec_unravel shp (int i))"
  using unravelIndex_spec[of "f64_array vals shp" "int i"] traversal_facts(2)[OF assms]
  by (simp add: f64_array_def)

lemma f64_array_Get_pos:
  assumes "\<forall>d\<in>set shp. 0 \<le> d" "i < nat (computeSize shp)" "length vals = nat (computeSize shp)"
  shows "GetFloat64 (f64_array vals shp) (spec_unravel shp (int i)) = Inr (vals ! i)"
proof -
  note t = traversal_facts[OF assms(1,2)]
  have "int (length vals) = prod_list shp"
    using assms(3) t(3,4) by simp
  from f64_array_Get[OF t(5) this] show ?thesis
    by (simp add: t(6))
qed

lemma f64_array_Set_pos:
  assumes "\<forall>d\<in>set shp. 0 \<le> d" "i < nat (computeSize shp)" "length vals = nat (computeSize shp)"
  shows "SetFloat64 (f64_array vals shp) v (spec_unravel shp (int i)) =
           Inr (f64_array (vals[i := v]) shp)"
proof -
  note t = traversal_facts[OF assms(1,2)]
  have "int (length vals) = prod_list shp"
    using assms(3) t(3,4) by simp
  from f64_array_Set[OF t(5) this] show ?thesis
    by (simp add: t(6))
qed

lemma map_prefix_update:
  assumes "k < length zs"
  shows "(map g [0..<k] @ drop k zs)[k := g k] = map g [0..<Suc k] @ drop (Suc k) zs"
proof -
  have "drop k zs = zs ! k # drop (Suc k) zs"
    using assms by (simp add: Cons_nth_drop_Suc)
  then show ?thesis
    by (simp add: list_update_append)
qed

lemma map_traverse:
  assumes len: "length zs0 = n" and "k \<le> n"
    and body: "\<And>i zs. i < n \<Longrightarrow> length zs = n \<Longrightarrow>
                 body i (f64_array zs shp) = Inr (f64_array (zs[i := g i]) shp)"
  shows "for_loop [0..<k] body (f64_array zs0 shp) =
           Inr (f64_array (map g [0..<k] @ drop k zs0) shp)"
  using assms(2)
proof (induction k)
  case 0
  then show ?case by simp
next
  case (Suc k)
  then have k: "k < n" by simp
  have IH: "for_loop [0..<k] body (f64_array zs0 shp) =
      Inr (f64_array (map g [0..<k] @ drop k zs0) shp)"
    using Suc by simp
  have l: "length (map g [0..<k] @ drop k zs0) = n"
    using len k by simp
  have "body k (f64_array (map g [0..<k] @ drop k zs0) shp) =
      Inr (f64_array ((map g [0..<k] @ drop k zs0)[k := g k]) shp)"
    by (rule body[OF k l])
  also have "(map g [0..<k] @ drop k zs0)[k := g k] = map g [0..<Suc k] @ drop (Suc k) zs0"
    by (rule map_prefix_update) (use len k in simp)
  finally show ?case
    unfolding for_loop_snoc IH by simp
qed

lemma index_loop:
  assumes "length s0 = n" "k \<le> n"
  shows "for_loop [0..<k] (\<lambda>j s. if c j then Inl e else Inr (s[j := v j])) s0 =
           (if \<exists>j<k. c j then Inl e else Inr (map v [0..<k] @ drop k s0))"
  using assms(2)
proof (induction k)
  case 0
  then show ?case by simp
next
  case (Suc k)
  then have k: "k < n" by simp
  have IH: "for_loop [0..<k] (\<lambda>j s. if c j then Inl e else Inr (s[j := v j])) s0 =
           (if \<exists>j<k. c j then Inl e else Inr (map v [0..<k] @ drop k s0))"
    using Suc by simp
  have ex: "(\<exists>j<Suc k. c j) \<longleftrightarrow> (\<exists>j<k. c j) \<or> c k"
    by (auto simp: less_Suc_eq)
  have u: "(map v [0..<k] @ drop k s0)[k := v k] = map v [0..<Suc k] @ drop (Suc k) s0"
    by (rule map_prefix_update) (use assms(1) k in simp)
  show ?case
    unfolding for_loop_snoc IH ex using u by simp
qed

section \<open>Properties of broadcasting and the elementwise operators\<close>

lemma broadcast_source_index_spec:
  assumes "ndim a = int (length (shape a))" "offset + length (shape a) \<le> length dst"
  shows "broadcast_source_index a offset dst = Inr (spec_broadcast_index (shape a) offset dst)"
proof -
  let ?n = "length (shape a)"
  have "for_loop [0..<?n]
       (\<lambda>j s. if offset + j \<ge> length dst \<or> j \<ge> ?n then Inl RuntimePanic
              else Inr (s[j := (if shape a ! j = 1 then 0 else dst ! (offset + j))]))
       (make_ints ?n) =
     (if \<exists>j<?n. offset + j \<ge> length dst \<or> j \<ge> ?n then Inl RuntimePanic
      else Inr (map (\<lambda>j. if shape a ! j = 1 then 0 else dst ! (offset + j)) [0..<?n] @
                drop ?n (make_ints ?n)))"
    by (rule index_loop[where n = "length (shape a)"]) (simp_all add: make_ints_def)
  moreover have "\<not> (\<exists>j<?n. offset + j \<ge> length dst \<or> j \<ge> ?n)"
    using assms(2) by auto
  ultimately show ?thesis
    unfolding broadcast_source_index_def assms(1) nat_int Let_def spec_broadcast_index_def
    by (simp add: make_ints_def)
qed

lemma check_loop:
  "for_loop [0..<n] (\<lambda>i (u :: unit). if bad i then Inl e else Inr u) () =
     (if \<exists>i<n. bad i then Inl e else Inr ())"
proof (induction n)
  case 0
  then show ?case by simp
next
  case (Suc n)
  have ex: "(\<exists>i<Suc n. bad i) \<longleftrightarrow> (\<exists>i<n. bad i) \<or> bad n"
    by (auto simp: less_Suc_eq)
  show ?case
    unfolding for_loop_snoc Suc ex by simp
qed

lemma spec_broadcast_index_ok:
  assumes "length sa \<le> length target"
    "\<forall>j<length sa. sa ! j = 1 \<or> sa ! j = target ! (length target - length sa + j)"
    "spec_index_ok target dst"
  shows "spec_index_ok sa (spec_broadcast_index sa (length target - length sa) dst)"
  unfolding spec_index_ok_def
proof (rule list_all2_all_nthI)
  show "length sa = length (spec_broadcast_index sa (length target - length sa) dst)"
    by (simp add: spec_broadcast_index_def)
next
  fix j
  assume j: "j < length sa"
  let ?o = "length target - length sa"
  have "?o + j < length target" using j assms(1) by simp
  from spec_index_ok_nth[OF assms(3) this]
  have d: "0 \<le> dst ! (?o + j)" "dst ! (?o + j) < target ! (?o + j)"
    by simp_all
  from assms(2) j have "sa ! j = 1 \<or> sa ! j = target ! (?o + j)" by simp
  then show "0 \<le> spec_broadcast_index sa ?o dst ! j \<and> spec_broadcast_index sa ?o dst ! j < sa ! j"
    using d j by (auto simp: spec_broadcast_index_def)
qed

lemma broadcastTo_f64:
  assumes ne: "sa \<noteq> []" and nna: "\<forall>d\<in>set sa. 0 \<le> d"
    and lx: "length xs = nat (computeSize sa)"
    and nnt: "\<forall>d\<in>set target. 0 \<le> d"
    and le: "length sa \<le> length target"
    and compat: "\<forall>j<length sa. sa ! j = 1 \<or> sa ! j = target ! (length target - length sa + j)"
  shows "broadcastTo (f64_array xs sa) target =
           Inr (f64_array (map (\<lambda>i. xs ! spec_broadcast_pos sa target i)
                             [0..<nat (computeSize target)]) target)"
proof -
  let ?a = "f64_array xs sa"
  let ?o = "length target - length sa"
  let ?N = "nat (computeSize target)"
  let ?g = "\<lambda>i. xs ! spec_broadcast_pos sa target i"
  have fa: "shape ?a = sa" "dtype ?a = Float64" "ndim ?a = int (length sa)"
    by (simp_all add: f64_array_def)
  have chk: "for_loop [0..<length sa]
               (\<lambda>i (u :: unit).
                  if sa ! i \<noteq> 1 \<and> sa ! i \<noteq> target ! (?o + i)
                  then Inl (BroadcastError sa target) else Inr u) () = Inr ()"
    unfolding check_loop using compat by auto
  have z: "Zeros target Float64 = Inr (f64_array (replicate ?N 0) target)"
    by (rule Zeros_f64_array) (rule computeSize_nonneg[OF nnt])
  have lxp: "int (length xs) = prod_list sa"
    using lx ne computeSize_nonneg[OF nna] by (simp add: computeSize_prod_list)
  have body: "(case unravelIndex (f64_array zs target) (int i) of
                 Inl e \<Rightarrow> Inl e
               | Inr dstIndices \<Rightarrow>
               case broadcast_source_index ?a ?o dstIndices of
                 Inl e \<Rightarrow> Inl e | Inr srcIndices \<Rightarrow>
               case GetFloat64 ?a srcIndices of Inl e \<Rightarrow> Inl e | Inr val \<Rightarrow>
                 SetFloat64 (f64_array zs target) val dstIndices) =
              Inr (f64_array (zs[i := ?g i]) target)"
    if i: "i < ?N" and lz: "length zs = ?N" for i zs
  proof -
    let ?dst = "spec_unravel target (int i)"
    note t = traversal_facts[OF nnt i]
    have u: "unravelIndex (f64_array zs target) (int i) = Inr ?dst"
      by (rule f64_array_unravel[OF nnt i])
    have "?o + length (shape ?a) \<le> length ?dst"
      using le by (simp add: fa length_spec_unravel)
    from broadcast_source_index_spec[OF _ this]
    have s: "broadcast_source_index ?a ?o ?dst = Inr (spec_broadcast_index sa ?o ?dst)"
      by (simp add: fa)
    have ok: "spec_index_ok sa (spec_broadcast_index sa ?o ?dst)"
      by (rule spec_broadcast_index_ok[OF le compat t(5)])
    have g: "GetFloat64 ?a (spec_broadcast_index sa ?o ?dst) = Inr (?g i)"
      using f64_array_Get[OF ok lxp] by (simp add: spec_broadcast_pos_def)
    have st: "SetFloat64 (f64_array zs target) (?g i) ?dst = Inr (f64_array (zs[i := ?g i]) target)"
      by (rule f64_array_Set_pos[OF nnt i lz])
    show ?thesis
      by (simp only: u s g st sum.case)
  qed
  have loop: "for_loop [0..<?N]
      (\<lambda>i result.
         case unravelIndex result (int i) of Inl e \<Rightarrow> Inl e | Inr dstIndices \<Rightarrow>
         case broadcast_source_index ?a ?o dstIndices of
           Inl e \<Rightarrow> Inl e | Inr srcIndices \<Rightarrow>
         case GetFloat64 ?a srcIndices of Inl e \<Rightarrow> Inl e | Inr val \<Rightarrow>
           SetFloat64 result val dstIndices)
      (f64_array (replicate ?N 0) target) =
    Inr (f64_array (map ?g [0..<?N] @ drop ?N (replicate ?N 0)) target)"
    by (rule map_traverse[where n = ?N]) (simp_all add: body)
  have sz: "nat (size' (f64_array (replicate ?N 0) target)) = ?N"
    by (simp add: f64_array_def)
  show ?thesis
    unfolding broadcastTo_def fa Let_def chk z sum.case sz loop
    using le by simp
qed

lemma spec_pad_left_nth:
  assumes "length s \<le> n" "j < length s"
  shows "spec_pad_left n s ! (n - length s + j) = s ! j"
proof -
  have "(replicate (n - length s) 1 @ s) ! (length (replicate (n - length s) (1::int)) + j) = s ! j"
    by (rule nth_append_length_plus)
  then show ?thesis
    by (simp add: spec_pad_left_def)
qed

lemma spec_pad_left_nonneg:
  "\<forall>d\<in>set s. 0 \<le> d \<Longrightarrow> \<forall>d\<in>set (spec_pad_left n s). 0 \<le> d"
  by (auto simp: spec_pad_left_def)

lemma length_spec_pad_left: "length s \<le> n \<Longrightarrow> length (spec_pad_left n s) = n"
  by (simp add: spec_pad_left_def)

lemma broadcastShapes_compat:
  assumes "broadcastShapes s1 s2 = Inr t"
  shows "length t = max (length s1) (length s2)"
    and "\<forall>j<length s1. s1 ! j = 1 \<or> s1 ! j = t ! (length t - length s1 + j)"
    and "\<forall>j<length s2. s2 ! j = 1 \<or> s2 ! j = t ! (length t - length s2 + j)"
    and "(\<forall>d\<in>set s1. 0 \<le> d) \<Longrightarrow> (\<forall>d\<in>set s2. 0 \<le> d) \<Longrightarrow> \<forall>d\<in>set t. 0 \<le> d"
proof -
  define n where "n = max (length s1) (length s2)"
  define p1 where "p1 = spec_pad_left n s1"
  define p2 where "p2 = spec_pad_left n s2"
  have l: "length s1 \<le> n" "length s2 \<le> n" by (simp_all add: n_def)
  have lp: "length p1 = n" "length p2 = n"
    using l by (simp_all add: p1_def p2_def length_spec_pad_left)
  from assms have ok: "\<forall>i<n. spec_axis_compatible (p1 ! i) (p2 ! i)"
    and t: "t = map2 spec_joint_extent p1 p2"
    unfolding broadcastShapes_eq n_def[symmetric] Let_def p1_def[symmetric] p2_def[symmetric]
    by (auto split: if_splits)
  show lt: "length t = max (length s1) (length s2)"
    using lp by (simp add: t n_def)
  have tn: "t ! i = spec_joint_extent (p1 ! i) (p2 ! i)" if "i < n" for i
    using that lp by (simp add: t)
  show "\<forall>j<length s1. s1 ! j = 1 \<or> s1 ! j = t ! (length t - length s1 + j)"
  proof (intro allI impI)
    fix j assume j: "j < length s1"
    then have i: "n - length s1 + j < n" using l by simp
    have "p1 ! (n - length s1 + j) = s1 ! j"
      unfolding p1_def by (rule spec_pad_left_nth[OF l(1) j])
    with tn[OF i] ok i show "s1 ! j = 1 \<or> s1 ! j = t ! (length t - length s1 + j)"
      unfolding lt n_def[symmetric]
      by (auto simp: spec_joint_extent_def spec_axis_compatible_def split: if_splits)
  qed
  show "\<forall>j<length s2. s2 ! j = 1 \<or> s2 ! j = t ! (length t - length s2 + j)"
  proof (intro allI impI)
    fix j assume j: "j < length s2"
    then have i: "n - length s2 + j < n" using l by simp
    have "p2 ! (n - length s2 + j) = s2 ! j"
      unfolding p2_def by (rule spec_pad_left_nth[OF l(2) j])
    with tn[OF i] ok i show "s2 ! j = 1 \<or> s2 ! j = t ! (length t - length s2 + j)"
      unfolding lt n_def[symmetric]
      by (auto simp: spec_joint_extent_def spec_axis_compatible_def split: if_splits)
  qed
  show "\<forall>d\<in>set t. 0 \<le> d" if nn: "\<forall>d\<in>set s1. 0 \<le> d" "\<forall>d\<in>set s2. 0 \<le> d"
  proof -
    have n1: "\<forall>d\<in>set p1. 0 \<le> d" and n2: "\<forall>d\<in>set p2. 0 \<le> d"
      unfolding p1_def p2_def by (rule spec_pad_left_nonneg[OF nn(1)], rule spec_pad_left_nonneg[OF nn(2)])
    have "0 \<le> t ! i" if "i < length t" for i
    proof -
      from that have i: "i < n" using lt by (simp add: n_def)
      have "0 \<le> p1 ! i" "0 \<le> p2 ! i"
        using n1 n2 lp i by (simp_all add: all_set_conv_all_nth)
      then show ?thesis
        unfolding tn[OF i] by (simp add: spec_joint_extent_def)
    qed
    then show ?thesis
      by (simp add: all_set_conv_all_nth)
  qed
qed

lemma elementwise_binary_f64:
  assumes "sa \<noteq> []" "\<forall>d\<in>set sa. 0 \<le> d" "length xs = nat (computeSize sa)"
    and "sb \<noteq> []" "\<forall>d\<in>set sb. 0 \<le> d" "length ys = nat (computeSize sb)"
    and bs: "broadcastShapes sa sb = Inr t"
  shows "elementwise_binary f (f64_array xs sa) (f64_array ys sb) =
           Inr (f64_array (map (\<lambda>i. f (xs ! spec_broadcast_pos sa t i)
                                       (ys ! spec_broadcast_pos sb t i))
                             [0..<nat (computeSize t)]) t)"
proof -
  let ?N = "nat (computeSize t)"
  let ?xb = "map (\<lambda>i. xs ! spec_broadcast_pos sa t i) [0..<?N]"
  let ?yb = "map (\<lambda>i. ys ! spec_broadcast_pos sb t i) [0..<?N]"
  let ?g = "\<lambda>i. f (xs ! spec_broadcast_pos sa t i) (ys ! spec_broadcast_pos sb t i)"
  note c = broadcastShapes_compat[OF bs]
  have nnt: "\<forall>d\<in>set t. 0 \<le> d"
    by (rule c(4)[OF assms(2,5)])
  have ba: "broadcastTo (f64_array xs sa) t = Inr (f64_array ?xb t)"
    by (rule broadcastTo_f64[OF assms(1,2,3) nnt _ c(2)]) (simp add: c(1))
  have bb: "broadcastTo (f64_array ys sb) t = Inr (f64_array ?yb t)"
    by (rule broadcastTo_f64[OF assms(4,5,6) nnt _ c(3)]) (simp add: c(1))
  have z: "Zeros t Float64 = Inr (f64_array (replicate ?N 0) t)"
    by (rule Zeros_f64_array) (rule computeSize_nonneg[OF nnt])
  have body: "(case unravelIndex (f64_array zs t) (int i) of Inl e \<Rightarrow> Inl e | Inr indices \<Rightarrow>
             case GetFloat64 (f64_array ?xb t) indices of Inl e \<Rightarrow> Inl e | Inr valA \<Rightarrow>
             case GetFloat64 (f64_array ?yb t) indices of Inl e \<Rightarrow> Inl e | Inr valB \<Rightarrow>
               SetFloat64 (f64_array zs t) (f valA valB) indices) =
          Inr (f64_array (zs[i := ?g i]) t)"
    if i: "i < ?N" and lz: "length zs = ?N" for i zs
  proof -
    have u: "unravelIndex (f64_array zs t) (int i) = Inr (spec_unravel t (int i))"
      by (rule f64_array_unravel[OF nnt i])
    have ga: "GetFloat64 (f64_array ?xb t) (spec_unravel t (int i)) = Inr (?xb ! i)"
      by (rule f64_array_Get_pos[OF nnt i]) simp
    have gb: "GetFloat64 (f64_array ?yb t) (spec_unravel t (int i)) = Inr (?yb ! i)"
      by (rule f64_array_Get_pos[OF nnt i]) simp
    have st: "SetFloat64 (f64_array zs t) (f (?xb ! i) (?yb ! i)) (spec_unravel t (int i)) =
        Inr (f64_array (zs[i := f (?xb ! i) (?yb ! i)]) t)"
      by (rule f64_array_Set_pos[OF nnt i lz])
    have "f (?xb ! i) (?yb ! i) = ?g i"
      using i by simp
    with st show ?thesis
      by (simp only: u ga gb sum.case)
  qed
  have loop: "for_loop [0..<?N]
          (\<lambda>i result.
             case unravelIndex result (int i) of Inl e \<Rightarrow> Inl e | Inr indices \<Rightarrow>
             case GetFloat64 (f64_array ?xb t) indices of Inl e \<Rightarrow> Inl e | Inr valA \<Rightarrow>
             case GetFloat64 (f64_array ?yb t) indices of Inl e \<Rightarrow> Inl e | Inr valB \<Rightarrow>
               SetFloat64 result (f valA valB) indices)
          (f64_array (replicate ?N 0) t) =
      Inr (f64_array (map ?g [0..<?N] @ drop ?N (replicate ?N 0)) t)"
    by (rule map_traverse[where n = ?N]) (simp_all add: body)
  have fa: "shape (f64_array xs sa) = sa" "shape (f64_array ys sb) = sb"
    "dtype (f64_array xs sa) = Float64"
    by (simp_all add: f64_array_def)
  have sz: "nat (size' (f64_array (replicate ?N 0) t)) = ?N"
    by (simp add: f64_array_def)
  show ?thesis
    unfolding elementwise_binary_def fa bs ba bb z sum.case sz loop by simp
qed

lemma for_loop_invariant:
  assumes "P s0" "\<And>i s s'. i \<in> set xs \<Longrightarrow> P s \<Longrightarrow> body i s = Inr s' \<Longrightarrow> P s'"
    "for_loop xs body s0 = Inr s"
  shows "P s"
  using assms
proof (induction xs arbitrary: s0)
  case Nil
  then show ?case by simp
next
  case (Cons x xs)
  from Cons.prems(3) obtain s1 where s1: "body x s0 = Inr s1" "for_loop xs body s1 = Inr s"
    by (auto split: sum.splits)
  have "P s1"
    by (rule Cons.prems(2)[OF _ Cons.prems(1) s1(1)]) simp
  moreover have "\<And>i s s'. i \<in> set xs \<Longrightarrow> P s \<Longrightarrow> body i s = Inr s' \<Longrightarrow> P s'"
    by (rule Cons.prems(2)) simp_all
  ultimately show ?case
    using s1(2) by (rule Cons.IH)
qed

lemma put_meta:
  "put a off bs = Inr a' \<Longrightarrow>
   shape a' = shape a \<and> strides a' = strides a \<and> dtype a' = dtype a \<and>
   size' a' = size' a \<and> ndim a' = ndim a \<and> length (data a') = length (data a)"
  by (auto simp: put_def store_def split: if_splits)

lemma SetFloat64_put:
  "SetFloat64 a v idx = Inr a' \<Longrightarrow> \<exists>off bs. put a off bs = Inr a'"
  unfolding SetFloat64_def
  by (cases "flatIndex a idx") (auto split: if_splits)

lemma SetFloat64_meta:
  "SetFloat64 a v idx = Inr a' \<Longrightarrow>
   shape a' = shape a \<and> strides a' = strides a \<and> dtype a' = dtype a \<and>
   size' a' = size' a \<and> ndim a' = ndim a \<and> length (data a') = length (data a)"
  using SetFloat64_put put_meta by blast

lemma Zeros_meta:
  "Zeros shp dt = Inr r \<Longrightarrow> shape r = shp \<and> dtype r = dt \<and> size' r = computeSize shp"
  by (auto simp: Zeros_def Let_def split: sum.splits)

lemma broadcastTo_meta:
  assumes "broadcastTo a t = Inr r"
  shows "shape r = t \<and> dtype r = dtype a"
proof -
  from assms obtain z where z: "Zeros t (dtype a) = Inr z"
    and loop: "for_loop [0..<nat (size' z)]
            (\<lambda>i result.
               case unravelIndex result (int i) of Inl e \<Rightarrow> Inl e | Inr dstIndices \<Rightarrow>
               case broadcast_source_index a (length t - length (shape a)) dstIndices of
                 Inl e \<Rightarrow> Inl e | Inr srcIndices \<Rightarrow>
               case GetFloat64 a srcIndices of Inl e \<Rightarrow> Inl e | Inr val \<Rightarrow>
                 SetFloat64 result val dstIndices)
            z = Inr r"
    unfolding broadcastTo_def Let_def by (auto split: if_splits sum.splits)
  have "shape r = t \<and> dtype r = dtype a"
  proof (rule for_loop_invariant[where P = "\<lambda>s. shape s = t \<and> dtype s = dtype a", OF _ _ loop])
    show "shape z = t \<and> dtype z = dtype a"
      using Zeros_meta[OF z] by simp
  next
    fix i s s'
    assume P: "shape s = t \<and> dtype s = dtype a"
      and b: "(case unravelIndex s (int i) of Inl e \<Rightarrow> Inl e | Inr dstIndices \<Rightarrow>
               case broadcast_source_index a (length t - length (shape a)) dstIndices of
                 Inl e \<Rightarrow> Inl e | Inr srcIndices \<Rightarrow>
               case GetFloat64 a srcIndices of Inl e \<Rightarrow> Inl e | Inr val \<Rightarrow>
                 SetFloat64 s val dstIndices) = Inr s'"
    from b obtain v idx where "SetFloat64 s v idx = Inr s'"
      by (auto split: sum.splits)
    from SetFloat64_meta[OF this] P show "shape s' = t \<and> dtype s' = dtype a"
      by simp
  qed
  then show ?thesis .
qed

lemma elementwise_binary_meta:
  assumes "elementwise_binary f a b = Inr r"
  shows "\<exists>t aB bB. broadcastShapes (shape a) (shape b) = Inr t \<and>
           broadcastTo a t = Inr aB \<and> broadcastTo b t = Inr bB \<and>
           shape aB = t \<and> dtype aB = dtype a \<and> shape bB = t \<and> dtype bB = dtype b \<and>
           shape r = t \<and> dtype r = dtype a"
proof -
  from assms obtain t aB bB z where
    t: "broadcastShapes (shape a) (shape b) = Inr t"
    and aB: "broadcastTo a t = Inr aB" and bB: "broadcastTo b t = Inr bB"
    and z: "Zeros t (dtype a) = Inr z"
    and loop: "for_loop [0..<nat (size' z)]
          (\<lambda>i result.
             case unravelIndex result (int i) of Inl e \<Rightarrow> Inl e | Inr indices \<Rightarrow>
             case GetFloat64 aB indices of Inl e \<Rightarrow> Inl e | Inr valA \<Rightarrow>
             case GetFloat64 bB indices of Inl e \<Rightarrow> Inl e | Inr valB \<Rightarrow>
               SetFloat64 result (f valA valB) indices)
          z = Inr r"
    unfolding elementwise_binary_def by (auto split: sum.splits)
  have "shape r = t \<and> dtype r = dtype a"
  proof (rule for_loop_invariant[where P = "\<lambda>s. shape s = t \<and> dtype s = dtype a", OF _ _ loop])
    show "shape z = t \<and> dtype z = dtype a"
      using Zeros_meta[OF z] by simp
  next
    fix i s s'
    assume P: "shape s = t \<and> dtype s = dtype a"
      and b: "(case unravelIndex s (int i) of Inl e \<Rightarrow> Inl e | Inr indices \<Rightarrow>
             case GetFloat64 aB indices of Inl e \<Rightarrow> Inl e | Inr valA \<Rightarrow>
             case GetFloat64 bB indices of Inl e \<Rightarrow> Inl e | Inr valB \<Rightarrow>
               SetFloat64 s (f valA valB) indices) = Inr s'"
    from b obtain v idx where "SetFloat64 s v idx = Inr s'"
      by (auto split: sum.splits)
    from SetFloat64_meta[OF this] P show "shape s' = t \<and> dtype s' = dtype a"
      by simp
  qed
  with t aB bB broadcastTo_meta[OF aB] broadcastTo_meta[OF bB] show ?thesis
    by blast
qed

lemma elementwise_compare_meta:
  assumes "elementwise_compare p a b = Inr r"
  shows "\<exists>t aB bB. broadcastShapes (shape a) (shape b) = Inr t \<and>
           broadcastTo a t = Inr aB \<and> broadcastTo b t = Inr bB \<and>
           shape aB = t \<and> dtype aB = dtype a \<and> shape bB = t \<and> dtype bB = dtype b \<and>
           shape r = t \<and> dtype r = Bool"
proof -
  from assms obtain t aB bB z where
    t: "broadcastShapes (shape a) (shape b) = Inr t"
    and aB: "broadcastTo a t = Inr aB" and bB: "broadcastTo b t = Inr bB"
    and z: "Zeros t Bool = Inr z"
    and loop: "for_loop [0..<nat (size' z)]
          (\<lambda>i result.
             case unravelIndex result (int i) of Inl e \<Rightarrow> Inl e | Inr indices \<Rightarrow>
             case GetFloat64 aB indices of Inl e \<Rightarrow> Inl e | Inr valA \<Rightarrow>
             case GetFloat64 bB indices of Inl e \<Rightarrow> Inl e | Inr valB \<Rightarrow>
               if p valA valB then SetFloat64 result f64_one indices else Inr result)
          z = Inr r"
    unfolding elementwise_compare_def by (auto split: sum.splits)
  have "shape r = t \<and> dtype r = Bool"
  proof (rule for_loop_invariant[where P = "\<lambda>s. shape s = t \<and> dtype s = Bool", OF _ _ loop])
    show "shape z = t \<and> dtype z = Bool"
      using Zeros_meta[OF z] by simp
  next
    fix i s s'
    assume P: "shape s = t \<and> dtype s = Bool"
      and b: "(case unravelIndex s (int i) of Inl e \<Rightarrow> Inl e | Inr indices \<Rightarrow>
             case GetFloat64 aB indices of Inl e \<Rightarrow> Inl e | Inr valA \<Rightarrow>
             case GetFloat64 bB indices of Inl e \<Rightarrow> Inl e | Inr valB \<Rightarrow>
               if p valA valB then SetFloat64 s f64_one indices else Inr s) = Inr s'"
    from b have "(\<exists>v idx. SetFloat64 s v idx = Inr s') \<or> s' = s"
      by (auto split: sum.splits if_splits)
    with SetFloat64_meta P show "shape s' = t \<and> dtype s' = Bool"
      by metis
  qed
  with t aB bB broadcastTo_meta[OF aB] broadcastTo_meta[OF bB] show ?thesis
    by blast
qed

end
